theory Spec2Isabelle
  imports Complex_Main
begin

section \<open>Data model (src/types.ts)\<close>

text \<open>
  The TypeScript enums are string enums: at run time a value of \<open>DeviceStatus\<close> is the
  string of its name. The renderer switches on that string and has a \<open>default\<close> branch,
  so the run-time string is kept beside the datatype.
\<close>

datatype DeviceType = ROUTER | SWITCH | SERVER | FIREWALL

datatype DeviceStatus = ONLINE | OFFLINE | WARNING

datatype AuthType = PASSWORD | KEY

datatype LinkStatus = UP | DOWN

fun DeviceStatus_str :: "DeviceStatus \<Rightarrow> string" where
  "DeviceStatus_str ONLINE = ''ONLINE''"
| "DeviceStatus_str OFFLINE = ''OFFLINE''"
| "DeviceStatus_str WARNING = ''WARNING''"

fun LinkStatus_str :: "LinkStatus \<Rightarrow> string" where
  "LinkStatus_str UP = ''UP''"
| "LinkStatus_str DOWN = ''DOWN''"

record NetconfDeviceConfig =
  dev_id :: string
  dev_name :: string
  ip :: string
  port :: int
  username :: string
  password :: "string option"
  authType :: "AuthType option"
  sshKey :: "string option"
  dev_type :: DeviceType

record Device = NetconfDeviceConfig +
  status :: DeviceStatus
  uptime :: string
  cpuLoad :: int
  memoryUsage :: int

record Link =
  source :: string
  target :: string
  bandwidth :: string
  link_status :: LinkStatus

record TopologyData =
  topo_nodes :: "Device list"
  topo_links :: "Link list"

section \<open>Mock topology generator (src/services/mockData.ts)\<close>

text \<open>
  \<open>Math.random()\<close> is modelled by a stream \<open>rnd\<close> of reals and a counter: the \<open>k\<close>-th
  call returns \<open>rnd k\<close>. JavaScript guarantees \<open>0 \<le> rnd k < 1\<close>; theorems that need it
  assume it. \<open>Math.floor\<close> is \<open>floor\<close>. The \<open>&&\<close> and \<open>?:\<close> operators only call
  \<open>Math.random()\<close> on the branch that is evaluated, and the counter follows that.
\<close>

definition digit_char :: "nat \<Rightarrow> char" where
  "digit_char d = char_of (48 + d)"

fun show_nat :: "nat \<Rightarrow> string" where
  "show_nat n = (if n < 10 then [digit_char n] else show_nat (n div 10) @ [digit_char (n mod 10)])"

declare show_nat.simps [simp del]

definition show_int :: "int \<Rightarrow> string" where
  "show_int i = (if i < 0 then CHR ''-'' # show_nat (nat (- i)) else show_nat (nat i))"

definition generateDeviceStatus ::
  "(nat \<Rightarrow> real) \<Rightarrow> nat \<Rightarrow> NetconfDeviceConfig \<Rightarrow> Device \<times> nat" where
  "generateDeviceStatus rnd k config =
    (let isOffline = rnd k > 0.9;
         k1 = k + 1;
         isWarning = (\<not> isOffline \<and> rnd k1 > 0.8);
         k2 = (if isOffline then k1 else k1 + 1);
         st = (if isOffline then OFFLINE else if isWarning then WARNING else ONLINE);
         up = (if isOffline then ''0d''
               else show_int \<lfloor>rnd k2 * 100\<rfloor> @ ''d '' @ show_int \<lfloor>rnd (k2 + 1) * 24\<rfloor> @ ''h'');
         k3 = (if isOffline then k2 else k2 + 2);
         cpu = (if isOffline then 0 else \<lfloor>rnd k3 * (if isWarning then 100 else 60)\<rfloor>);
         k4 = (if isOffline then k3 else k3 + 1);
         mem = (if isOffline then 0 else \<lfloor>rnd k4 * 90\<rfloor>);
         k5 = (if isOffline then k4 else k4 + 1)
     in (\<lparr> dev_id = dev_id config, dev_name = dev_name config, ip = ip config,
            port = port config, username = username config, password = password config,
            authType = authType config, sshKey = sshKey config, dev_type = dev_type config,
            status = st, uptime = up, cpuLoad = cpu, memoryUsage = mem \<rparr>, k5))"

text \<open>\<open>configs.map(generateDeviceStatus)\<close>: the callback runs on the elements in order.\<close>

fun map_generateDeviceStatus ::
  "(nat \<Rightarrow> real) \<Rightarrow> nat \<Rightarrow> NetconfDeviceConfig list \<Rightarrow> Device list \<times> nat" where
  "map_generateDeviceStatus rnd k [] = ([], k)"
| "map_generateDeviceStatus rnd k (c # cs) =
    (let (d, k') = generateDeviceStatus rnd k c;
         (ds, k'') = map_generateDeviceStatus rnd k' cs
     in (d # ds, k''))"

text \<open>
  One iteration of the \<open>for\<close> loop of \<open>generateTopologyFromConfig\<close>: the ring link from
  node \<open>i\<close> to node \<open>(i + 1) % nodes.length\<close>, then perhaps a mesh link. The result is the
  links pushed by this iteration and the new counter of random draws.
\<close>

definition ring_step :: "(nat \<Rightarrow> real) \<Rightarrow> Device list \<Rightarrow> nat \<Rightarrow> nat \<Rightarrow> Link list \<times> nat" where
  "ring_step rnd ns i k =
    (let src = ns ! i;
         targetIndex = (i + 1) mod length ns;
         tgt = ns ! targetIndex;
         ring = \<lparr> source = dev_id src, target = dev_id tgt,
                  bandwidth = (if rnd k > 0.5 then ''10Gbps'' else ''1Gbps''),
                  link_status = (if status src = OFFLINE \<or> status tgt = OFFLINE then DOWN else UP) \<rparr>;
         k1 = k + 1
     in if length ns > 3 then
          (if rnd k1 > 0.7 then
             (let randomTarget = ns ! nat \<lfloor>rnd (k1 + 1) * real (length ns)\<rfloor>
              in if dev_id randomTarget \<noteq> dev_id src \<and> dev_id randomTarget \<noteq> dev_id tgt
                 then ([ring, \<lparr> source = dev_id src, target = dev_id randomTarget,
                               bandwidth = ''40Gbps'', link_status = UP \<rparr>], k1 + 2)
                 else ([ring], k1 + 2))
           else ([ring], k1 + 1))
        else ([ring], k1))"

text \<open>The loop \<open>for (let i = 0; i < nodes.length; i++)\<close>, by the number of iterations left.\<close>

fun ring_loop :: "(nat \<Rightarrow> real) \<Rightarrow> Device list \<Rightarrow> nat \<Rightarrow> nat \<Rightarrow> nat \<Rightarrow> Link list \<times> nat" where
  "ring_loop rnd ns 0 i k = ([], k)"
| "ring_loop rnd ns (Suc todo) i k =
    (let (ls, k') = ring_step rnd ns i k;
         (rest, k'') = ring_loop rnd ns todo (i + 1) k'
     in (ls @ rest, k''))"

definition generateTopologyFromConfig ::
  "(nat \<Rightarrow> real) \<Rightarrow> NetconfDeviceConfig list \<Rightarrow> TopologyData" where
  "generateTopologyFromConfig rnd configs =
    (let (ns, k) = map_generateDeviceStatus rnd 0 configs;
         ls = (if length ns > 1 then fst (ring_loop rnd ns (length ns) 0 k) else [])
     in \<lparr> topo_nodes = ns, topo_links = ls \<rparr>)"

text \<open>
  The mesh links of a generated topology are the ones the second \<open>links.push\<close> makes; it is
  the only place that writes the bandwidth \<open>40Gbps\<close>.
\<close>

definition is_mesh_link :: "Link \<Rightarrow> bool" where
  "is_mesh_link l = (bandwidth l = ''40Gbps'')"


section \<open>Topology view (src/components/TopologyGraph.tsx, src/unnamed/part_003)\<close>

text \<open>
  The repository holds three variants of the component:
  \<^item> \<open>V1\<close>: src/components/TopologyGraph.tsx, lines 1--191. The effect returns early on an
    empty node list and hands the caller's arrays to the simulation.
  \<^item> \<open>V2\<close>: src/components/TopologyGraph.tsx, lines 191--451. No guard on the node list;
    the simulation gets shallow copies (\<open>safeNodes\<close>, \<open>safeLinks\<close>); nodes have a click
    handler.
  \<^item> \<open>V3\<close>: src/unnamed/part_003. As \<open>V2\<close>, with other force constants and a disc for
    every device type.
  The component's own code (the effect body, the tick callback, the drag and click
  handlers, \<open>getStatusColor\<close>) is translated from these files. What it calls in d3
  (d3-force, d3-drag, d3-zoom) and what React does with an effect are written out after the
  libraries' documented behaviour, each under its library name, since the component's
  behaviour is only defined together with them. The force laws themselves (link, charge,
  centre, collide) and the initial placement are parameters: no claim depends on their
  numbers, only on which objects and fields they write. JavaScript numbers are \<open>real\<close>;
  a field that is \<open>undefined\<close>, \<open>null\<close> or \<open>NaN\<close> is \<open>None\<close>.
\<close>

datatype variant = V1 | V2 | V3

subsection \<open>Objects and the store\<close>

text \<open>
  Objects have identity: the simulation mutates the node and link objects it is given, and
  the variants differ in whether these are the caller's objects or copies. An address says
  who allocated the object: \<open>Caller i\<close> for the objects the parent component passes in the
  props, \<open>Copy i\<close> for the objects the effect allocates with \<open>{...n}\<close>.
\<close>

datatype addr = Caller nat | Copy nat

record node_obj =
  dev :: Device
  n_index :: "nat option"
  n_x :: "real option"
  n_y :: "real option"
  n_vx :: "real option"
  n_vy :: "real option"
  n_fx :: "real option"
  n_fy :: "real option"

text \<open>
  \<open>link.source\<close> is a string (a device id) as the caller supplies it and a node object once
  the link force has resolved it.
\<close>

datatype endpoint = Id string | NodeRef addr

record link_obj =
  l_source :: endpoint
  l_target :: endpoint
  l_bandwidth :: string
  l_status :: LinkStatus
  l_label :: "string option"
  l_index :: "nat option"

datatype error = NodeNotFound string

datatype shape = Circle real | Rect real real

record line_el =
  line_datum :: addr
  line_sim :: nat
  line_stroke :: string
  line_x1 :: "real option"
  line_y1 :: "real option"
  line_x2 :: "real option"
  line_y2 :: "real option"

text \<open>
  A node element remembers the simulation its drag handlers close over (\<open>el_sim\<close>) and its
  click listener: \<open>None\<close> when the variant registers none, \<open>Some b\<close> when it registers one,
  \<open>b\<close> telling whether the \<open>onNodeClick\<close> prop of that render was supplied.
\<close>

record node_el =
  el_datum :: addr
  el_sim :: nat
  el_click :: "bool option"
  el_stroke :: string
  el_shape :: shape
  el_transform :: "(real option \<times> real option) option"

record simulation =
  sim_nodes :: "addr list"
  sim_links :: "addr list"
  alpha :: real
  alphaMin :: real
  alphaDecay :: real
  alphaTarget :: real
  velocityDecay :: real
  running :: bool
  on_tick :: bool

text \<open>The pointer of a mouse event: its client position, and \<open>d3.pointer(event, container)\<close>.\<close>

record pointer =
  clientX :: real
  clientY :: real
  px :: real
  py :: real

record gesture =
  g_subject :: addr
  g_sim :: nat
  g_dx :: real
  g_dy :: real
  g_downx :: real
  g_downy :: real
  g_moving :: bool

record drag_event =
  ev_active :: nat
  ev_subject :: addr
  ev_x :: real
  ev_y :: real

text \<open>
  \<open>tick_log\<close> records every call of a tick callback (by simulation), \<open>selected\<close> every call
  of \<open>onNodeClick\<close> (by the object passed).
\<close>

record state =
  node_heap :: "addr \<Rightarrow> node_obj"
  link_heap :: "addr \<Rightarrow> link_obj"
  next_node :: nat
  next_link :: nat
  svgRef_current :: bool
  wrapperRef_current :: bool
  unmounted :: bool
  sims :: "nat \<Rightarrow> simulation"
  next_sim :: nat
  cleanup :: "nat option"
  dom_lines :: "line_el list"
  dom_nodes :: "node_el list"
  drag_gesture :: "gesture option"
  tick_log :: "nat list"
  selected :: "addr list"

type_synonym placement = "nat \<Rightarrow> real \<times> real"

type_synonym kin = "real option \<times> real option \<times> real option \<times> real option"

type_synonym forces =
  "real \<Rightarrow> (addr \<Rightarrow> node_obj) \<Rightarrow> (addr \<Rightarrow> link_obj) \<Rightarrow> addr list \<Rightarrow> addr list \<Rightarrow> addr \<Rightarrow> kin"

subsection \<open>The renderer's colours\<close>

definition getStatusColor :: "string \<Rightarrow> string" where
  "getStatusColor st =
    (if st = ''ONLINE'' then ''#10b981''
     else if st = ''WARNING'' then ''#f59e0b''
     else if st = ''OFFLINE'' then ''#ef4444''
     else ''#64748b'')"

definition link_stroke :: "link_obj \<Rightarrow> string" where
  "link_stroke d = (if LinkStatus_str (l_status d) = ''DOWN'' then ''#ef4444'' else ''#475569'')"

definition node_shape :: "variant \<Rightarrow> node_obj \<Rightarrow> shape" where
  "node_shape V d =
    (case V of
       V1 \<Rightarrow> Circle 25
     | V2 \<Rightarrow> (if dev_type (dev d) = SERVER then Rect 50 50 else Circle 30)
     | V3 \<Rightarrow> Circle 28)"

subsection \<open>d3-force: the simulation\<close>

definition alphaDecay_default :: real where
  "alphaDecay_default = 1 - 0.001 powr (1 / 300)"

definition idle_simulation :: simulation where
  "idle_simulation = \<lparr> sim_nodes = [], sim_links = [], alpha = 0, alphaMin = 0.001,
     alphaDecay = alphaDecay_default, alphaTarget = 0, velocityDecay = 0.6,
     running = False, on_tick = False \<rparr>"

text \<open>\<open>initializeNodes\<close> of d3-force, for the node at position \<open>i\<close> of the array.\<close>

definition initializeNode :: "placement \<Rightarrow> nat \<Rightarrow> node_obj \<Rightarrow> node_obj" where
  "initializeNode P i d =
    (let d1 = d\<lparr>n_index := Some i\<rparr>;
         d2 = (if n_fx d1 \<noteq> None then d1\<lparr>n_x := n_fx d1\<rparr> else d1);
         d3 = (if n_fy d2 \<noteq> None then d2\<lparr>n_y := n_fy d2\<rparr> else d2);
         d4 = (if n_x d3 = None \<or> n_y d3 = None
               then d3\<lparr>n_x := Some (fst (P i)), n_y := Some (snd (P i))\<rparr> else d3)
     in if n_vx d4 = None \<or> n_vy d4 = None then d4\<lparr>n_vx := Some 0, n_vy := Some 0\<rparr> else d4)"

fun initializeNodes ::
  "placement \<Rightarrow> addr list \<Rightarrow> nat \<Rightarrow> (addr \<Rightarrow> node_obj) \<Rightarrow> (addr \<Rightarrow> node_obj)" where
  "initializeNodes P [] i h = h"
| "initializeNodes P (a # as) i h = initializeNodes P as (i + 1) (h(a := initializeNode P i (h a)))"

text \<open>
  \<open>forceSimulation(nodes)\<close>: initialises the node objects in place, creates the simulation
  with its defaults and starts its timer.
\<close>

definition forceSimulation :: "placement \<Rightarrow> addr list \<Rightarrow> state \<Rightarrow> state" where
  "forceSimulation P ns s =
    s\<lparr> node_heap := initializeNodes P ns 0 (node_heap s),
       sims := (sims s)(next_sim s :=
         \<lparr> sim_nodes = ns, sim_links = [], alpha = 1, alphaMin = 0.001,
           alphaDecay = alphaDecay_default, alphaTarget = 0, velocityDecay = 0.6,
           running = True, on_tick = False \<rparr>),
       next_sim := next_sim s + 1 \<rparr>"

text \<open>
  The link force's node map, \<open>new Map(nodes.map(d => [id(d), d]))\<close> with the component's
  accessor \<open>d => d.id\<close>: of two nodes with one id the later one stays.
\<close>

definition nodeById :: "(addr \<Rightarrow> node_obj) \<Rightarrow> addr list \<Rightarrow> string \<Rightarrow> addr option" where
  "nodeById h ns i = List.find (\<lambda>a. dev_id (dev (h a)) = i) (rev ns)"

text \<open>
  \<open>if (typeof link.source !== "object") link.source = find(nodeById, link.source)\<close>, where
  \<open>find\<close> throws \<open>node not found\<close> for an id the map does not have.
\<close>

definition find_node :: "(addr \<Rightarrow> node_obj) \<Rightarrow> addr list \<Rightarrow> endpoint \<Rightarrow> error + endpoint" where
  "find_node h ns e =
    (case e of
       NodeRef a \<Rightarrow> Inr (NodeRef a)
     | Id i \<Rightarrow> (case nodeById h ns i of None \<Rightarrow> Inl (NodeNotFound i) | Some a \<Rightarrow> Inr (NodeRef a)))"

fun forceLink_initialize ::
  "(addr \<Rightarrow> node_obj) \<Rightarrow> addr list \<Rightarrow> addr list \<Rightarrow> nat \<Rightarrow> (addr \<Rightarrow> link_obj) \<Rightarrow>
   error + (addr \<Rightarrow> link_obj)" where
  "forceLink_initialize h ns [] i lh = Inr lh"
| "forceLink_initialize h ns (l # ls) i lh =
    (let d = (lh l)\<lparr>l_index := Some i\<rparr> in
     case find_node h ns (l_source d) of
       Inl e \<Rightarrow> Inl e
     | Inr src \<Rightarrow>
        (case find_node h ns (l_target d) of
           Inl e \<Rightarrow> Inl e
         | Inr tgt \<Rightarrow>
            forceLink_initialize h ns ls (i + 1) (lh(l := d\<lparr>l_source := src, l_target := tgt\<rparr>))))"

text \<open>\<open>simulation.force("link", forceLink(links).id(d => d.id))\<close> on simulation \<open>i\<close>.\<close>

definition force_link :: "nat \<Rightarrow> addr list \<Rightarrow> state \<Rightarrow> error + state" where
  "force_link i ls s =
    (case forceLink_initialize (node_heap s) (sim_nodes (sims s i)) ls 0 (link_heap s) of
       Inl e \<Rightarrow> Inl e
     | Inr lh \<Rightarrow> Inr (s\<lparr> link_heap := lh, sims := (sims s)(i := (sims s i)\<lparr>sim_links := ls\<rparr>) \<rparr>))"

definition simulation_stop :: "nat \<Rightarrow> state \<Rightarrow> state" where
  "simulation_stop i s = s\<lparr> sims := (sims s)(i := (sims s i)\<lparr>running := False\<rparr>) \<rparr>"

definition simulation_restart :: "nat \<Rightarrow> state \<Rightarrow> state" where
  "simulation_restart i s = s\<lparr> sims := (sims s)(i := (sims s i)\<lparr>running := True\<rparr>) \<rparr>"

definition simulation_alphaTarget :: "nat \<Rightarrow> real \<Rightarrow> state \<Rightarrow> state" where
  "simulation_alphaTarget i t s = s\<lparr> sims := (sims s)(i := (sims s i)\<lparr>alphaTarget := t\<rparr>) \<rparr>"

definition simulation_on_tick :: "nat \<Rightarrow> state \<Rightarrow> state" where
  "simulation_on_tick i s = s\<lparr> sims := (sims s)(i := (sims s i)\<lparr>on_tick := True\<rparr>) \<rparr>"

text \<open>
  The node objects reached by the links of a simulation: the link force writes the
  velocities of these, whether or not they are in the simulation's node array.
\<close>

definition endpoint_addrs :: "endpoint \<Rightarrow> addr list" where
  "endpoint_addrs e = (case e of NodeRef a \<Rightarrow> [a] | Id i \<Rightarrow> [])"

definition link_ends :: "(addr \<Rightarrow> link_obj) \<Rightarrow> addr list \<Rightarrow> addr list" where
  "link_ends lh ls = concat (map (\<lambda>l. endpoint_addrs (l_source (lh l)) @ endpoint_addrs (l_target (lh l))) ls)"

definition set_kin :: "kin \<Rightarrow> node_obj \<Rightarrow> node_obj" where
  "set_kin k d = (case k of (x, y, vx, vy) \<Rightarrow> d\<lparr>n_x := x, n_y := y, n_vx := vx, n_vy := vy\<rparr>)"

text \<open>
  \<open>forces.forEach(force => force(alpha))\<close>: the forces read the node and link objects and
  write \<open>x\<close>, \<open>y\<close>, \<open>vx\<close>, \<open>vy\<close> of the simulation's nodes and of the link ends. Their joint
  effect is the parameter \<open>F\<close>.
\<close>

definition apply_forces :: "forces \<Rightarrow> nat \<Rightarrow> state \<Rightarrow> state" where
  "apply_forces F i s =
    (let sm = sims s i;
         W = sim_nodes sm @ link_ends (link_heap s) (sim_links sm)
     in s\<lparr> node_heap := (\<lambda>a. if a \<in> set W
              then set_kin (F (alpha sm) (node_heap s) (link_heap s) (sim_nodes sm) (sim_links sm) a)
                     (node_heap s a)
              else node_heap s a) \<rparr>)"

definition num_add :: "real option \<Rightarrow> real option \<Rightarrow> real option" where
  "num_add a b = (case a of None \<Rightarrow> None | Some u \<Rightarrow> (case b of None \<Rightarrow> None | Some w \<Rightarrow> Some (u + w)))"

definition num_scale :: "real option \<Rightarrow> real \<Rightarrow> real option" where
  "num_scale a c = (case a of None \<Rightarrow> None | Some u \<Rightarrow> Some (u * c))"

text \<open>
  The position update of \<open>tick\<close>:
  \<^verbatim>\<open>if (node.fx == null) node.x += node.vx *= velocityDecay; else node.x = node.fx, node.vx = 0;\<close>
  and the same for \<open>y\<close>.
\<close>

definition integrate_node :: "real \<Rightarrow> node_obj \<Rightarrow> node_obj" where
  "integrate_node vd d =
    (let d1 = (if n_fx d = None
               then d\<lparr>n_vx := num_scale (n_vx d) vd, n_x := num_add (n_x d) (num_scale (n_vx d) vd)\<rparr>
               else d\<lparr>n_x := n_fx d, n_vx := Some 0\<rparr>)
     in if n_fy d1 = None
        then d1\<lparr>n_vy := num_scale (n_vy d1) vd, n_y := num_add (n_y d1) (num_scale (n_vy d1) vd)\<rparr>
        else d1\<lparr>n_y := n_fy d1, n_vy := Some 0\<rparr>)"

fun integrate_nodes :: "real \<Rightarrow> addr list \<Rightarrow> (addr \<Rightarrow> node_obj) \<Rightarrow> (addr \<Rightarrow> node_obj)" where
  "integrate_nodes vd [] h = h"
| "integrate_nodes vd (a # as) h = integrate_nodes vd as (h(a := integrate_node vd (h a)))"

definition simulation_tick :: "forces \<Rightarrow> nat \<Rightarrow> state \<Rightarrow> state" where
  "simulation_tick F i s =
    (let sm = sims s i;
         sm' = sm\<lparr>alpha := alpha sm + (alphaTarget sm - alpha sm) * alphaDecay sm\<rparr>;
         s1 = apply_forces F i (s\<lparr>sims := (sims s)(i := sm')\<rparr>)
     in s1\<lparr>node_heap := integrate_nodes (velocityDecay sm') (sim_nodes sm') (node_heap s1)\<rparr>)"

subsection \<open>The component's tick callback\<close>

definition endpoint_x :: "(addr \<Rightarrow> node_obj) \<Rightarrow> endpoint \<Rightarrow> real option" where
  "endpoint_x h e = (case e of NodeRef a \<Rightarrow> n_x (h a) | Id i \<Rightarrow> None)"

definition endpoint_y :: "(addr \<Rightarrow> node_obj) \<Rightarrow> endpoint \<Rightarrow> real option" where
  "endpoint_y h e = (case e of NodeRef a \<Rightarrow> n_y (h a) | Id i \<Rightarrow> None)"

text \<open>
  The callback of simulation \<open>i\<close> updates the selections \<open>link\<close> and \<open>node\<close> of the effect
  that created it, that is the elements that effect appended.
\<close>

definition tick_line :: "state \<Rightarrow> line_el \<Rightarrow> line_el" where
  "tick_line s e =
    (let d = link_heap s (line_datum e)
     in e\<lparr> line_x1 := endpoint_x (node_heap s) (l_source d),
           line_y1 := endpoint_y (node_heap s) (l_source d),
           line_x2 := endpoint_x (node_heap s) (l_target d),
           line_y2 := endpoint_y (node_heap s) (l_target d) \<rparr>)"

definition tick_node :: "state \<Rightarrow> node_el \<Rightarrow> node_el" where
  "tick_node s e =
    (let d = node_heap s (el_datum e) in e\<lparr> el_transform := Some (n_x d, n_y d) \<rparr>)"

definition tick_callback :: "nat \<Rightarrow> state \<Rightarrow> state" where
  "tick_callback i s =
    s\<lparr> dom_lines := map (\<lambda>e. if line_sim e = i then tick_line s e else e) (dom_lines s),
       dom_nodes := map (\<lambda>e. if el_sim e = i then tick_node s e else e) (dom_nodes s),
       tick_log := tick_log s @ [i] \<rparr>"

text \<open>
  \<open>step\<close> of d3-force, the timer's callback: one tick, the \<open>tick\<close> event, and the timer
  stops once \<open>alpha < alphaMin\<close>.
\<close>

definition simulation_step :: "forces \<Rightarrow> nat \<Rightarrow> state \<Rightarrow> state" where
  "simulation_step F i s =
    (let s1 = simulation_tick F i s;
         s2 = (if on_tick (sims s1 i) then tick_callback i s1 else s1)
     in if alpha (sims s2 i) < alphaMin (sims s2 i) then simulation_stop i s2 else s2)"


subsection \<open>The effect\<close>

text \<open>\<open>nodes.map(n => ({...n}))\<close>: one fresh object per array element, with the same fields.\<close>

fun copy_nodes :: "addr list \<Rightarrow> state \<Rightarrow> addr list \<times> state" where
  "copy_nodes [] s = ([], s)"
| "copy_nodes (a # as) s =
    (let c = Copy (next_node s);
         s1 = s\<lparr> node_heap := (node_heap s)(c := node_heap s a), next_node := next_node s + 1 \<rparr>;
         (cs, s2) = copy_nodes as s1
     in (c # cs, s2))"

fun copy_links :: "addr list \<Rightarrow> state \<Rightarrow> addr list \<times> state" where
  "copy_links [] s = ([], s)"
| "copy_links (a # as) s =
    (let c = Copy (next_link s);
         s1 = s\<lparr> link_heap := (link_heap s)(c := link_heap s a), next_link := next_link s + 1 \<rparr>;
         (cs, s2) = copy_links as s1
     in (c # cs, s2))"

definition draw_line :: "nat \<Rightarrow> state \<Rightarrow> addr \<Rightarrow> line_el" where
  "draw_line i s l =
    \<lparr> line_datum = l, line_sim = i, line_stroke = link_stroke (link_heap s l),
      line_x1 = None, line_y1 = None, line_x2 = None, line_y2 = None \<rparr>"

definition draw_node :: "variant \<Rightarrow> nat \<Rightarrow> bool \<Rightarrow> state \<Rightarrow> addr \<Rightarrow> node_el" where
  "draw_node V i oc s n =
    \<lparr> el_datum = n, el_sim = i,
      el_click = (if V = V1 then None else Some oc),
      el_stroke = getStatusColor (DeviceStatus_str (status (dev (node_heap s n)))),
      el_shape = node_shape V (node_heap s n),
      el_transform = None \<rparr>"

text \<open>
  The body of \<open>useEffect\<close> for the props \<open>nodes\<close>, \<open>links\<close> and \<open>onNodeClick\<close> (\<open>oc\<close>: whether
  the optional prop is supplied). An exception leaves the effect as \<open>Inl\<close>. On success the
  field \<open>cleanup\<close> holds what the effect returned: \<open>Some i\<close> for the function that stops
  simulation \<open>i\<close>, \<open>None\<close> after the bare \<open>return\<close> of the guard.
\<close>

definition useEffect_body ::
  "variant \<Rightarrow> placement \<Rightarrow> addr list \<Rightarrow> addr list \<Rightarrow> bool \<Rightarrow> state \<Rightarrow> error + state" where
  "useEffect_body V P ns ls oc s =
    (if \<not> svgRef_current s \<or> \<not> wrapperRef_current s \<or> (V = V1 \<and> length ns = 0)
     then Inr (s\<lparr>cleanup := None\<rparr>)
     else
       let (safeNodes, s1) = (if V = V1 then (ns, s) else copy_nodes ns s);
           (safeLinks, s2) = (if V = V1 then (ls, s1) else copy_links ls s1);
           s3 = s2\<lparr>dom_lines := [], dom_nodes := []\<rparr>;
           i = next_sim s3;
           s4 = forceSimulation P safeNodes s3
       in case force_link i safeLinks s4 of
            Inl e \<Rightarrow> Inl e
          | Inr s5 \<Rightarrow>
              (let s6 = s5\<lparr>dom_lines := map (draw_line i s5) safeLinks\<rparr>;
                   s7 = s6\<lparr>dom_nodes := map (draw_node V i oc s6) safeNodes\<rparr>;
                   s8 = simulation_on_tick i s7
               in Inr (s8\<lparr>cleanup := Some i\<rparr>)))"

subsection \<open>React: running the effect\<close>

text \<open>
  A render whose dependencies changed (the first one included): React attaches the refs,
  runs the cleanup the previous effect returned, then runs the effect. Unmounting runs the
  pending cleanup and takes the elements out of the document.
\<close>

definition render ::
  "variant \<Rightarrow> placement \<Rightarrow> addr list \<Rightarrow> addr list \<Rightarrow> bool \<Rightarrow> state \<Rightarrow> error + state" where
  "render V P ns ls oc s =
    (if unmounted s then Inr s
     else
       let s0 = s\<lparr>svgRef_current := True, wrapperRef_current := True\<rparr>;
           s1 = (case cleanup s0 of None \<Rightarrow> s0 | Some i \<Rightarrow> simulation_stop i s0)
       in useEffect_body V P ns ls oc s1)"

definition unmount :: "state \<Rightarrow> state" where
  "unmount s =
    (if unmounted s then s
     else
       let s1 = (case cleanup s of None \<Rightarrow> s | Some i \<Rightarrow> simulation_stop i s)
       in s1\<lparr> dom_lines := [], dom_nodes := [], svgRef_current := False,
              wrapperRef_current := False, unmounted := True, cleanup := None \<rparr>)"

subsection \<open>The component's drag and click handlers\<close>

definition dragstarted :: "nat \<Rightarrow> drag_event \<Rightarrow> state \<Rightarrow> state" where
  "dragstarted i ev s =
    (let s1 = (if ev_active ev = 0 then simulation_restart i (simulation_alphaTarget i 0.3 s) else s);
         d = node_heap s1 (ev_subject ev)
     in s1\<lparr> node_heap := (node_heap s1)(ev_subject ev := d\<lparr>n_fx := n_x d, n_fy := n_y d\<rparr>) \<rparr>)"

definition dragged :: "nat \<Rightarrow> drag_event \<Rightarrow> state \<Rightarrow> state" where
  "dragged i ev s =
    s\<lparr> node_heap := (node_heap s)(ev_subject ev :=
         (node_heap s (ev_subject ev))\<lparr>n_fx := Some (ev_x ev), n_fy := Some (ev_y ev)\<rparr>) \<rparr>"

definition dragended :: "nat \<Rightarrow> drag_event \<Rightarrow> state \<Rightarrow> state" where
  "dragended i ev s =
    (let s1 = (if ev_active ev = 0 then simulation_alphaTarget i 0 s else s)
     in s1\<lparr> node_heap := (node_heap s1)(ev_subject ev :=
          (node_heap s1 (ev_subject ev))\<lparr>n_fx := None, n_fy := None\<rparr>) \<rparr>)"

text \<open>\<open>.on("click", (event, d) => { event.stopPropagation(); if (onNodeClick) onNodeClick(d); })\<close>\<close>

definition node_click :: "node_el \<Rightarrow> state \<Rightarrow> state" where
  "node_click e s =
    (case el_click e of
       Some True \<Rightarrow> s\<lparr>selected := selected s @ [el_datum e]\<rparr>
     | _ \<Rightarrow> s)"

subsection \<open>d3-drag: a mouse gesture on a node element\<close>

text \<open>
  d3-drag takes the element's datum as the subject, keeps the offset between the subject
  and the pointer at mouse-down (\<open>dx = s.x - p[0] || 0\<close>) and reports every event at
  \<open>p + (dx, dy)\<close>. A gesture that moved by more than \<open>clickDistance\<close> (the default, 0)
  suppresses the click that the browser would dispatch after mouse-up. One mouse, hence
  one gesture at a time: \<open>event.active\<close> is 0 at its start and at its end.
\<close>

definition drag_offset :: "real option \<Rightarrow> real \<Rightarrow> real" where
  "drag_offset sx p = (case sx of None \<Rightarrow> 0 | Some v \<Rightarrow> v - p)"

definition mousedowned :: "nat \<Rightarrow> pointer \<Rightarrow> state \<Rightarrow> state" where
  "mousedowned k p s =
    (if drag_gesture s \<noteq> None \<or> \<not> k < length (dom_nodes s) then s
     else
       let e = dom_nodes s ! k;
           d = node_heap s (el_datum e);
           dx = drag_offset (n_x d) (px p);
           dy = drag_offset (n_y d) (py p);
           s1 = dragstarted (el_sim e)
                  \<lparr> ev_active = 0, ev_subject = el_datum e, ev_x = px p + dx, ev_y = py p + dy \<rparr> s
       in s1\<lparr> drag_gesture := Some \<lparr> g_subject = el_datum e, g_sim = el_sim e, g_dx = dx, g_dy = dy,
                 g_downx = clientX p, g_downy = clientY p, g_moving = False \<rparr> \<rparr>)"

definition mousemoved :: "pointer \<Rightarrow> state \<Rightarrow> state" where
  "mousemoved p s =
    (case drag_gesture s of
       None \<Rightarrow> s
     | Some g \<Rightarrow>
        (let mv = (g_moving g \<or> (clientX p - g_downx g) * (clientX p - g_downx g)
                               + (clientY p - g_downy g) * (clientY p - g_downy g) > 0);
             s1 = dragged (g_sim g)
                    \<lparr> ev_active = 1, ev_subject = g_subject g,
                      ev_x = px p + g_dx g, ev_y = py p + g_dy g \<rparr> s
         in s1\<lparr>drag_gesture := Some (g\<lparr>g_moving := mv\<rparr>)\<rparr>))"

definition mouseupped :: "pointer \<Rightarrow> state \<Rightarrow> state" where
  "mouseupped p s =
    (case drag_gesture s of
       None \<Rightarrow> s
     | Some g \<Rightarrow>
        (let s1 = dragended (g_sim g)
                    \<lparr> ev_active = 0, ev_subject = g_subject g,
                      ev_x = px p + g_dx g, ev_y = py p + g_dy g \<rparr> s;
             s2 = s1\<lparr>drag_gesture := None\<rparr>
         in if g_moving g then s2
            else (case List.find (\<lambda>e. el_datum e = g_subject g \<and> el_sim e = g_sim g) (dom_nodes s2) of
                    None \<Rightarrow> s2
                  | Some e \<Rightarrow> node_click e s2)))"

subsection \<open>The view as an event-driven machine\<close>

text \<open>
  Everything runs on one thread, one event at a time: a render with new props, unmounting,
  the timer of a simulation firing, and the mouse on a node element (by its position in the
  current document). The timer of a simulation only fires while it runs.
\<close>

datatype event =
    Render "addr list" "addr list" bool
  | Unmount
  | TimerFire nat
  | PointerDown nat pointer
  | PointerMove pointer
  | PointerUp pointer

fun step :: "variant \<Rightarrow> placement \<Rightarrow> forces \<Rightarrow> event \<Rightarrow> state \<Rightarrow> error + state" where
  "step V P F (Render ns ls oc) s = render V P ns ls oc s"
| "step V P F Unmount s = Inr (unmount s)"
| "step V P F (TimerFire i) s = Inr (if running (sims s i) then simulation_step F i s else s)"
| "step V P F (PointerDown k p) s = Inr (mousedowned k p s)"
| "step V P F (PointerMove p) s = Inr (mousemoved p s)"
| "step V P F (PointerUp p) s = Inr (mouseupped p s)"

fun run :: "variant \<Rightarrow> placement \<Rightarrow> forces \<Rightarrow> event list \<Rightarrow> state \<Rightarrow> error + state" where
  "run V P F [] s = Inr s"
| "run V P F (e # es) s = (case step V P F e s of Inl err \<Rightarrow> Inl err | Inr s' \<Rightarrow> run V P F es s')"

definition init_state :: "(addr \<Rightarrow> node_obj) \<Rightarrow> (addr \<Rightarrow> link_obj) \<Rightarrow> state" where
  "init_state hn hl =
    \<lparr> node_heap = hn, link_heap = hl, next_node = 0, next_link = 0,
      svgRef_current = False, wrapperRef_current = False, unmounted = False,
      sims = (\<lambda>i. idle_simulation), next_sim = 0, cleanup = None,
      dom_lines = [], dom_nodes = [], drag_gesture = None, tick_log = [], selected = [] \<rparr>"


subsection \<open>Example inputs\<close>

definition example_rnd :: "nat \<Rightarrow> real" where
  "example_rnd k = (if k = 25 then 3 / 4 else if k = 26 then 1 / 2 else 0)"

definition example_config :: "string \<Rightarrow> NetconfDeviceConfig" where
  "example_config i =
    \<lparr> dev_id = i, dev_name = i, ip = ''192.168.10.1'', port = 830, username = ''admin'',
      password = None, authType = None, sshKey = None, dev_type = ROUTER \<rparr>"

definition example_configs :: "NetconfDeviceConfig list" where
  "example_configs = [example_config ''a'', example_config ''b'', example_config ''c'', example_config ''d'']"

subsection \<open>Vocabulary of the properties\<close>

text \<open>
  \<open>endpoint_unknown\<close>: the endpoint is still an id (a string) and no node of the list has
  that id; this is what the link force looks up and fails on. An endpoint that an earlier
  link force already replaced by a node object is never looked up, whether or not that node
  is in the list. \<open>unknown_id s ns l\<close>: link \<open>l\<close> has such an endpoint. \<open>resolves\<close> relates an
  endpoint to what the link force leaves in its place: for an id, a node object of the list
  with that id; for a node object, the same object.
\<close>

definition node_ids :: "(addr \<Rightarrow> node_obj) \<Rightarrow> addr list \<Rightarrow> string set" where
  "node_ids h ns = (\<lambda>a. dev_id (dev (h a))) ` set ns"

definition endpoint_unknown :: "(addr \<Rightarrow> node_obj) \<Rightarrow> addr list \<Rightarrow> endpoint \<Rightarrow> bool" where
  "endpoint_unknown h ns e = (case e of Id x \<Rightarrow> x \<notin> node_ids h ns | NodeRef a \<Rightarrow> False)"

definition link_unknown :: "(addr \<Rightarrow> node_obj) \<Rightarrow> addr list \<Rightarrow> link_obj \<Rightarrow> bool" where
  "link_unknown h ns d = (endpoint_unknown h ns (l_source d) \<or> endpoint_unknown h ns (l_target d))"

definition unknown_id :: "state \<Rightarrow> addr list \<Rightarrow> addr \<Rightarrow> bool" where
  "unknown_id s ns l = link_unknown (node_heap s) ns (link_heap s l)"

definition resolves :: "(addr \<Rightarrow> node_obj) \<Rightarrow> addr list \<Rightarrow> endpoint \<Rightarrow> endpoint \<Rightarrow> bool" where
  "resolves h ns e e' =
    (case e of
       NodeRef a \<Rightarrow> e' = NodeRef a
     | Id x \<Rightarrow> (case e' of NodeRef a \<Rightarrow> a \<in> set ns \<and> dev_id (dev (h a)) = x | Id y \<Rightarrow> False))"




subsection \<open>Example store\<close>

text \<open>
  The caller's node objects 0, 1, 2 are the devices \<open>a\<close>, \<open>b\<close>, \<open>c\<close>, and objects 3, 4, 5
  are fresh objects for the same three devices, and so on. The caller's link 0 joins \<open>a\<close>
  and \<open>b\<close>, link 1 points from \<open>a\<close> to an id no device has.
\<close>

definition example_device :: "string \<Rightarrow> DeviceStatus \<Rightarrow> Device" where
  "example_device i st =
    \<lparr> dev_id = i, dev_name = i, ip = ''192.168.10.1'', port = 830, username = ''admin'',
      password = None, authType = None, sshKey = None, dev_type = ROUTER,
      status = st, uptime = ''1d 2h'', cpuLoad = 10, memoryUsage = 20 \<rparr>"

definition example_node :: "string \<Rightarrow> DeviceStatus \<Rightarrow> node_obj" where
  "example_node i st =
    \<lparr> dev = example_device i st, n_index = None, n_x = None, n_y = None,
      n_vx = None, n_vy = None, n_fx = None, n_fy = None \<rparr>"

definition example_link :: "string \<Rightarrow> string \<Rightarrow> LinkStatus \<Rightarrow> link_obj" where
  "example_link a b st =
    \<lparr> l_source = Id a, l_target = Id b, l_bandwidth = ''1Gbps'', l_status = st,
      l_label = None, l_index = None \<rparr>"

definition example_node_heap :: "addr \<Rightarrow> node_obj" where
  "example_node_heap a =
    (case a of
       Caller i \<Rightarrow> (if i mod 3 = 0 then example_node ''a'' ONLINE
                    else if i mod 3 = 1 then example_node ''b'' OFFLINE
                    else example_node ''c'' WARNING)
     | Copy i \<Rightarrow> example_node ''c'' WARNING)"

definition example_link_heap :: "addr \<Rightarrow> link_obj" where
  "example_link_heap a =
    (if a = Caller 0 then example_link ''a'' ''b'' UP
     else if a = Caller 1 then example_link ''a'' ''ghost'' DOWN
     else example_link ''b'' ''c'' UP)"

definition example_place :: placement where
  "example_place i = (real i * 100, 0)"

definition example_forces :: forces where
  "example_forces al h lh ns ls a = (n_x (h a), n_y (h a), Some 1, Some 0)"

definition example_init :: state where
  "example_init = init_state example_node_heap example_link_heap"

definition example_mounted :: state where
  "example_mounted = example_init\<lparr>svgRef_current := True, wrapperRef_current := True\<rparr>"

subsection \<open>Inputs and reachable states\<close>

text \<open>
  \<open>caller_props\<close>: a render passes the caller's objects, each once. \<open>is_move_or_tick\<close>: the
  events that can fall between mouse-down and mouse-up of a gesture when the props stay the
  same. \<open>wf_state\<close> collects facts that hold in every state the view reaches.
\<close>

fun is_move_or_tick :: "event \<Rightarrow> bool" where
  "is_move_or_tick (PointerMove q) = True"
| "is_move_or_tick (TimerFire i) = True"
| "is_move_or_tick e = False"

fun moved_from :: "pointer \<Rightarrow> event \<Rightarrow> bool" where
  "moved_from p (PointerMove q) = (clientX q \<noteq> clientX p \<or> clientY q \<noteq> clientY p)"
| "moved_from p e = False"

fun is_caller :: "addr \<Rightarrow> bool" where
  "is_caller (Caller i) = True"
| "is_caller (Copy i) = False"

fun caller_props :: "event \<Rightarrow> bool" where
  "caller_props (Render ns ls oc) = (distinct ns \<and> distinct ls \<and> list_all is_caller ns \<and> list_all is_caller ls)"
| "caller_props e = True"

definition sim_params_ok :: "simulation \<Rightarrow> bool" where
  "sim_params_ok sm =
    (alphaMin sm = 0.001 \<and> alphaDecay sm = alphaDecay_default \<and> velocityDecay sm = 0.6 \<and>
     0 \<le> alpha sm \<and> (alphaTarget sm = 0 \<or> alphaTarget sm = 0.3))"

text \<open>The fields of an element that only the effect writes.\<close>

definition el_key :: "node_el \<Rightarrow> addr \<times> nat \<times> bool option" where
  "el_key e = (el_datum e, el_sim e, el_click e)"

definition line_key :: "line_el \<Rightarrow> addr \<times> nat \<times> string" where
  "line_key e = (line_datum e, line_sim e, line_stroke e)"

definition dom_ok :: "(nat \<Rightarrow> addr list) \<Rightarrow> (addr \<times> nat \<times> bool option) list \<Rightarrow> bool" where
  "dom_ok nodes_of ks =
    (\<forall>k \<in> set ks. \<forall>k' \<in> set ks. fst k \<in> set (nodes_of (fst (snd k))) \<and> snd k' = snd k)"

definition wf_state :: "state \<Rightarrow> bool" where
  "wf_state s =
    ((\<forall>j. sim_params_ok (sims s j)) \<and>
     (\<forall>j. distinct (sim_nodes (sims s j))) \<and>
     dom_ok (\<lambda>j. sim_nodes (sims s j)) (map el_key (dom_nodes s)))"

text \<open>The state in which React runs the effect: refs attached, previous cleanup done.\<close>

definition before_effect :: "state \<Rightarrow> state" where
  "before_effect s =
    (case cleanup s of
       None \<Rightarrow> s\<lparr>svgRef_current := True, wrapperRef_current := True\<rparr>
     | Some i \<Rightarrow> simulation_stop i (s\<lparr>svgRef_current := True, wrapperRef_current := True\<rparr>))"

text \<open>\<open>alpha\<close> after one tick; the node objects a tick of simulation \<open>i\<close> may write.\<close>

definition tick_alpha :: "simulation \<Rightarrow> real" where
  "tick_alpha sm = alpha sm + (alphaTarget sm - alpha sm) * alphaDecay sm"

definition touched :: "state \<Rightarrow> nat \<Rightarrow> addr set" where
  "touched s i = set (sim_nodes (sims s i)) \<union> set (link_ends (link_heap s) (sim_links (sims s i)))"

text \<open>The state after \<open>dragended\<close> of the gesture \<open>g\<close>, before any click is dispatched.\<close>

definition released :: "gesture \<Rightarrow> state \<Rightarrow> state" where
  "released g s =
    s\<lparr> sims := (sims s)(g_sim g := (sims s (g_sim g))\<lparr>alphaTarget := 0\<rparr>),
       node_heap := (node_heap s)(g_subject g := (node_heap s (g_subject g))\<lparr>n_fx := None, n_fy := None\<rparr>),
       drag_gesture := None \<rparr>"

text \<open>The simulation an effect leaves behind for the arrays \<open>sn\<close> and \<open>sl\<close>.\<close>

definition new_simulation :: "addr list \<Rightarrow> addr list \<Rightarrow> simulation" where
  "new_simulation sn sl =
    \<lparr> sim_nodes = sn, sim_links = sl, alpha = 1, alphaMin = 0.001,
      alphaDecay = alphaDecay_default, alphaTarget = 0, velocityDecay = 0.6,
      running = True, on_tick = True \<rparr>"

subsection \<open>A drag gesture in progress\<close>

text \<open>
  \<open>in_gesture\<close>: a gesture on node \<open>n\<close> of simulation \<open>i\<close> is in progress, with the offsets
  and the mouse-down position it started with. \<open>same_view\<close>: two states show the same
  elements for the same devices and node arrays.
\<close>

definition in_gesture :: "addr \<Rightarrow> nat \<Rightarrow> real \<Rightarrow> real \<Rightarrow> pointer \<Rightarrow> bool \<Rightarrow> state \<Rightarrow> bool" where
  "in_gesture n i dx dy p mv s =
    (drag_gesture s = Some \<lparr> g_subject = n, g_sim = i, g_dx = dx, g_dy = dy,
        g_downx = clientX p, g_downy = clientY p, g_moving = mv \<rparr> \<and>
     alphaTarget (sims s i) = 0.3 \<and> running (sims s i))"

definition same_view :: "state \<Rightarrow> state \<Rightarrow> bool" where
  "same_view s s' =
    (map el_key (dom_nodes s') = map el_key (dom_nodes s) \<and> selected s' = selected s \<and>
     (\<forall>a. dev (node_heap s' a) = dev (node_heap s a)) \<and>
     (\<forall>j. sim_nodes (sims s' j) = sim_nodes (sims s j)))"

subsection \<open>Example view\<close>

text \<open>
  The example store rendered by the copying variant with devices \<open>a\<close> and \<open>b\<close> and the link
  between them; a pointer inside the disc of \<open>b\<close>, 3 to the right of and 4 below its centre.
\<close>

definition example_p :: pointer where
  "example_p = \<lparr> clientX = 103, clientY = 4, px = 103, py = 4 \<rparr>"

definition example_q :: pointer where
  "example_q = \<lparr> clientX = 113, clientY = 4, px = 113, py = 4 \<rparr>"

definition example_renders :: "event list" where
  "example_renders = [Render [Caller 0, Caller 1] [Caller 0] True]"

definition example_view :: state where
  "example_view = projr (run V2 example_place example_forces example_renders example_init)"

definition example_dragged :: state where
  "example_dragged =
     projr (run V2 example_place example_forces [PointerDown 1 example_p, PointerMove example_q] example_view)"

subsection \<open>Teardown\<close>

text \<open>
  \<open>torn_down i\<close>: simulation \<open>i\<close> was created and its cleanup has run. \<open>quiet\<close>: only the
  simulation whose cleanup is pending runs, and every node element in the document belongs
  to it. \<open>ticks_of i\<close>: the calls of the tick callback of simulation \<open>i\<close> so far.
\<close>

definition torn_down :: "nat \<Rightarrow> state \<Rightarrow> bool" where
  "torn_down i s = (i < next_sim s \<and> cleanup s \<noteq> Some i)"

definition quiet :: "state \<Rightarrow> bool" where
  "quiet s =
    ((\<forall>j. running (sims s j) \<longrightarrow> cleanup s = Some j) \<and>
     (\<forall>k \<in> set (map el_key (dom_nodes s)). cleanup s = Some (fst (snd k))) \<and>
     (\<forall>j. cleanup s = Some j \<longrightarrow> j < next_sim s))"

definition ticks_of :: "nat \<Rightarrow> state \<Rightarrow> nat list" where
  "ticks_of i s = filter (\<lambda>j. j = i) (tick_log s)"

subsection \<open>Caller objects and copies\<close>

text \<open>
  \<open>caller_links_typed\<close>: the caller's link objects are \<open>Link\<close>s, their endpoints are ids
  (strings). \<open>copies_only\<close>: every object a simulation, an element or a gesture refers
  to is a copy. \<open>caller_unchanged\<close>: the caller's objects are what they were initially.
\<close>

fun is_copy :: "addr \<Rightarrow> bool" where
  "is_copy (Copy i) = True"
| "is_copy (Caller i) = False"

fun is_id :: "endpoint \<Rightarrow> bool" where
  "is_id (Id x) = True"
| "is_id (NodeRef a) = False"

definition caller_links_typed :: "(addr \<Rightarrow> link_obj) \<Rightarrow> bool" where
  "caller_links_typed hl = (\<forall>j. is_id (l_source (hl (Caller j))) \<and> is_id (l_target (hl (Caller j))))"

fun allocated_link :: "nat \<Rightarrow> addr \<Rightarrow> bool" where
  "allocated_link n (Copy j) = (j < n)"
| "allocated_link n (Caller j) = False"

definition copies_only :: "state \<Rightarrow> bool" where
  "copies_only s =
    ((\<forall>i. list_all is_copy (sim_nodes (sims s i))) \<and>
     (\<forall>i. list_all (allocated_link (next_link s)) (sim_links (sims s i))) \<and>
     (\<forall>i. list_all is_copy (link_ends (link_heap s) (sim_links (sims s i)))) \<and>
     list_all is_copy (map fst (map el_key (dom_nodes s))) \<and>
     (case drag_gesture s of None \<Rightarrow> True | Some g \<Rightarrow> is_copy (g_subject g)))"

definition caller_unchanged :: "(addr \<Rightarrow> node_obj) \<Rightarrow> (addr \<Rightarrow> link_obj) \<Rightarrow> state \<Rightarrow> bool" where
  "caller_unchanged hn hl s =
    ((\<forall>j. node_heap s (Caller j) = hn (Caller j)) \<and> (\<forall>j. link_heap s (Caller j) = hl (Caller j)))"

definition example_session :: "event list" where
  "example_session =
    [Render [Caller 0, Caller 1] [Caller 0] True,
     PointerDown 1 example_p, PointerMove example_q, PointerUp example_q, TimerFire 0]"

definition example_final :: state where
  "example_final = projr (run V2 example_place example_forces example_session example_init)"

subsection \<open>Lines and node positions\<close>

text \<open>
  \<open>line_on_nodes s ns e\<close>: the link of line \<open>e\<close> joins two node objects of the array \<open>ns\<close> and
  the line's endpoints are the positions of these two objects. \<open>lines_attached\<close>: every
  line in the document belongs to the simulation whose cleanup is pending, that simulation
  has its tick callback, and the line's link joins two nodes of that simulation.
\<close>

fun end_in :: "addr list \<Rightarrow> endpoint \<Rightarrow> bool" where
  "end_in ns (NodeRef a) = (a \<in> set ns)"
| "end_in ns (Id x) = False"

definition line_attached :: "state \<Rightarrow> addr \<times> nat \<times> string \<Rightarrow> bool" where
  "line_attached s k =
    (cleanup s = Some (fst (snd k)) \<and> on_tick (sims s (fst (snd k))) \<and>
     end_in (sim_nodes (sims s (fst (snd k)))) (l_source (link_heap s (fst k))) \<and>
     end_in (sim_nodes (sims s (fst (snd k)))) (l_target (link_heap s (fst k))))"

definition lines_attached :: "state \<Rightarrow> bool" where
  "lines_attached s = list_all (line_attached s) (map line_key (dom_lines s))"

definition line_on_nodes :: "state \<Rightarrow> addr list \<Rightarrow> line_el \<Rightarrow> bool" where
  "line_on_nodes s ns e =
    (case l_source (link_heap s (line_datum e)) of
       Id x \<Rightarrow> False
     | NodeRef a \<Rightarrow>
        (case l_target (link_heap s (line_datum e)) of
           Id y \<Rightarrow> False
         | NodeRef b \<Rightarrow>
             a \<in> set ns \<and> b \<in> set ns \<and>
             line_x1 e = n_x (node_heap s a) \<and> line_y1 e = n_y (node_heap s a) \<and>
             line_x2 e = n_x (node_heap s b) \<and> line_y2 e = n_y (node_heap s b)))"

definition example_rerender :: "event list" where
  "example_rerender =
    [Render [Caller 0, Caller 1] [Caller 0] False,
     Render [Caller 3, Caller 4] [Caller 0] False,
     TimerFire 1]"

definition example_stale :: state where
  "example_stale = projr (run V1 example_place example_forces example_rerender example_init)"

subsection \<open>The zoom behaviour\<close>

text \<open>
  Every variant creates \<open>d3Zoom().scaleExtent([0.1, 4])\<close>, listens to its \<open>zoom\<close> event and
  applies it to the \<open>svg\<close> element with \<open>svg.call(zoomBehavior)\<close>. The listener copies
  \<open>event.transform\<close> to the \<open>g\<close> element the effect appended; the guarded variant and the
  third one also keep \<open>event.transform.k\<close> in the React state \<open>zoomLevel\<close>. Nothing else in
  the component reads or writes the transform: what follows is d3-zoom 3 with its defaults
  (\<open>wheelDelta\<close>, \<open>duration\<close> 250, \<open>interpolateZoom\<close>, an unbounded translate extent, under
  which \<open>constrain\<close> returns its argument, and the view box as extent).

  A JavaScript number is a \<open>real option\<close>, \<open>None\<close> for \<open>NaN\<close>. \<open>Infinity\<close> is not among the
  values: a quotient by zero is \<open>None\<close>, except the one in \<open>touchmoved\<close> whose infinite
  value is used, which is written out there.
\<close>

type_synonym num = "real option"

definition num_sub :: "num \<Rightarrow> num \<Rightarrow> num" where
  "num_sub a b = (case a of None \<Rightarrow> None | Some u \<Rightarrow> (case b of None \<Rightarrow> None | Some w \<Rightarrow> Some (u - w)))"

definition num_mul :: "num \<Rightarrow> num \<Rightarrow> num" where
  "num_mul a b = (case a of None \<Rightarrow> None | Some u \<Rightarrow> (case b of None \<Rightarrow> None | Some w \<Rightarrow> Some (u * w)))"

definition num_div :: "num \<Rightarrow> num \<Rightarrow> num" where
  "num_div a b =
    (case a of None \<Rightarrow> None
     | Some u \<Rightarrow> (case b of None \<Rightarrow> None | Some w \<Rightarrow> if w = 0 then None else Some (u / w)))"

type_synonym point = "real \<times> real"

type_synonym npoint = "num \<times> num"

record transform =
  t_k :: num
  t_x :: num
  t_y :: num


definition scaleExtent :: "real \<times> real" where
  "scaleExtent = (0.1, 4)"




definition transform_invert :: "transform \<Rightarrow> point \<Rightarrow> npoint" where
  "transform_invert t p =
    (num_div (num_sub (Some (fst p)) (t_x t)) (t_k t),
     num_div (num_sub (Some (snd p)) (t_y t)) (t_k t))"



text \<open>
  \<open>interpolateZoom\<close> of d3-interpolate between the views \<open>(ux0, uy0, w0)\<close> and
  \<open>(ux1, uy1, w1)\<close>, with \<open>rho = sqrt 2\<close>, at time \<open>t\<close>: a straight path when the two centres
  are closer than \<open>1e-6\<close>, else the curved path that zooms out on the way. Here the widths
  are \<open>w / k\<close> for the extent's width \<open>w\<close>, positive unless \<open>w = 0\<close>, when both are 0 and
  JavaScript computes with \<open>0 / 0\<close>.
\<close>

definition epsilon2 :: real where
  "epsilon2 = 1 / 10 ^ 12"


text \<open>
  A transition that \<open>dblclicked\<close> scheduled, and the tween of a transition that has started:
  the transform \<open>a\<close> it found in \<open>__zoom\<close> when it started, its target \<open>b\<close>, the point and the
  extent's width.
\<close>

record zoom_target =
  tg_to :: transform
  tg_point :: point

record zoom_tween =
  tw_from :: transform
  tw_to :: transform
  tw_point :: point
  tw_width :: real

text \<open>
  The state. \<open>zoom_prop\<close> is the property \<open>__zoom\<close> of the \<open>svg\<close> element, which outlives the
  effects; \<open>g_transform z e\<close> is the \<open>transform\<close> attribute of the \<open>g\<close> element that effect \<open>e\<close>
  appended, \<open>None\<close> while the attribute is absent; \<open>view_box\<close> the width and height in the
  \<open>viewBox\<close> attribute. The model keeps one anchor (a pointer position and the point of the
  graph held there) per kind of input: the wheel, the dragging mouse, two touches.
\<close>

record zoom_view =
  zoom_prop :: "transform option"
  g_transform :: "nat \<Rightarrow> transform option"
  zoomLevel :: num
  zoom_effects :: nat
  view_box :: "real \<times> real"
  wheel_mouse :: "(point \<times> npoint) option"
  pan_mouse :: "(point \<times> npoint) option"
  touch0 :: "(point \<times> npoint) option"
  touch1 :: "(point \<times> npoint) option"
  scheduled :: "zoom_target list"
  tween :: "zoom_tween option"






text \<open>\<open>interrupt(this)\<close>: the running transition ends and the scheduled ones are cancelled.\<close>

definition zoom_interrupt :: "zoom_view \<Rightarrow> zoom_view" where
  "zoom_interrupt z = z\<lparr> scheduled := [], tween := None \<rparr>"















definition num_sq_dist :: "npoint \<Rightarrow> npoint \<Rightarrow> num" where
  "num_sq_dist p q =
    num_add (num_mul (num_sub (fst q) (fst p)) (num_sub (fst q) (fst p)))
            (num_mul (num_sub (snd q) (snd p)) (num_sub (snd q) (snd p)))"













definition in_extent :: "num \<Rightarrow> bool" where
  "in_extent n = (case n of None \<Rightarrow> False | Some k \<Rightarrow> fst scaleExtent \<le> k \<and> k \<le> snd scaleExtent)"

text \<open>
  Three conditions on an event in the state it arrives in. An effect that applies the
  behaviour finds a wrapper of positive width or height. A transition starts on the straight
  path: \<open>__zoom\<close> and the target hold the same point of the graph (within \<open>interpolateZoom\<close>'s
  tolerance) at the transition's point, as they do when nothing moved the view since the
  double click. A touch move does not find its two touches at one point while the points
  of the graph they hold coincide as well. And a frame comes no earlier than the start of
  its transition.
\<close>

definition straight_path :: "transform \<Rightarrow> transform \<Rightarrow> point \<Rightarrow> bool" where
  "straight_path a b p =
    (case num_sq_dist (transform_invert a p) (transform_invert b p) of
       None \<Rightarrow> False
     | Some d2 \<Rightarrow> d2 < epsilon2)"




text \<open>
  What holds in every state reached under these conditions. \<open>sound\<close>: a transform of three
  numbers with the scale in the extent.
\<close>

definition sound :: "transform \<Rightarrow> bool" where
  "sound t = (in_extent (t_k t) \<and> t_x t \<noteq> None \<and> t_y t \<noteq> None)"

definition anchor_ok :: "(point \<times> npoint) option \<Rightarrow> bool" where
  "anchor_ok m = (case m of None \<Rightarrow> True | Some a \<Rightarrow> fst (snd a) \<noteq> None \<and> snd (snd a) \<noteq> None)"

definition tween_ok :: "zoom_tween \<Rightarrow> bool" where
  "tween_ok tw =
    (sound (tw_from tw) \<and> sound (tw_to tw) \<and> 0 < tw_width tw \<and>
     straight_path (tw_from tw) (tw_to tw) (tw_point tw))"

definition zoom_ok :: "zoom_view \<Rightarrow> bool" where
  "zoom_ok z =
    ((case zoom_prop z of None \<Rightarrow> True | Some t \<Rightarrow> sound t) \<and>
     (zoom_prop z = None \<or> 0 < fst (view_box z) \<or> 0 < snd (view_box z)) \<and>
     (\<forall>e. case g_transform z e of None \<Rightarrow> True | Some t \<Rightarrow> sound t) \<and>
     in_extent (zoomLevel z) \<and>
     anchor_ok (wheel_mouse z) \<and> anchor_ok (pan_mouse z) \<and>
     anchor_ok (touch0 z) \<and> anchor_ok (touch1 z) \<and>
     list_all (\<lambda>tg. sound (tg_to tg)) (scheduled z) \<and>
     (case tween z of None \<Rightarrow> True | Some tw \<Rightarrow> tween_ok tw))"

subsection \<open>Example input of the zoom behaviour\<close>





section \<open>Properties of the mock topology generator\<close>

lemma generateDeviceStatus_id: "dev_id (fst (generateDeviceStatus rnd k c)) = dev_id c"
  by (simp add: generateDeviceStatus_def Let_def)

lemma map_generateDeviceStatus_ids:
  "map dev_id (fst (map_generateDeviceStatus rnd k cs)) = map dev_id cs"
proof (induction cs arbitrary: k)
  case Nil
  show ?case by simp
next
  case (Cons c cs)
  obtain d k' where g: "generateDeviceStatus rnd k c = (d, k')" by (cases "generateDeviceStatus rnd k c")
  obtain ds k'' where m: "map_generateDeviceStatus rnd k' cs = (ds, k'')"
    by (cases "map_generateDeviceStatus rnd k' cs")
  have "dev_id d = dev_id c" using generateDeviceStatus_id [of rnd k c] g by simp
  moreover have "map dev_id ds = map dev_id cs" using Cons.IH [of k'] m by simp
  ultimately show ?case using g m by simp
qed

lemma random_index_in_range:
  assumes "0 \<le> r" "r < 1" "0 < n"
  shows "nat \<lfloor>r * real n\<rfloor> < n"
proof -
  have "r * real n < real n" using assms by simp
  moreover have "0 \<le> r * real n" using assms by simp
  ultimately show ?thesis
    by (metis floor_less_iff nat_less_iff of_int_of_nat_eq of_nat_0_le_iff zero_le_floor floor_of_nat)
qed

lemma ring_step_links:
  assumes r: "\<forall>k. 0 \<le> rnd k \<and> rnd k < 1" and i: "i < length ns" and l: "l \<in> set (fst (ring_step rnd ns i k))"
  shows "source l \<in> dev_id ` set ns \<and> target l \<in> dev_id ` set ns \<and> (is_mesh_link l \<longrightarrow> source l \<noteq> target l)"
proof -
  let ?n = "length ns"
  have n: "0 < ?n" using i by (cases ns) simp_all
  have a: "ns ! i \<in> set ns" using i by simp
  have "(i + 1) mod ?n < ?n" using n by simp
  then have b: "ns ! ((i + 1) mod ?n) \<in> set ns" by (rule nth_mem)
  have "nat \<lfloor>rnd (k + 2) * real ?n\<rfloor> < ?n" using random_index_in_range r n by blast
  then have c: "ns ! nat \<lfloor>rnd (k + 2) * real ?n\<rfloor> \<in> set ns" by simp
  show ?thesis using l a b c
    by (auto simp: ring_step_def Let_def is_mesh_link_def numeral_2_eq_2 split: if_splits)
qed

lemma ring_loop_links:
  assumes r: "\<forall>k. 0 \<le> rnd k \<and> rnd k < 1"
  shows "i + todo \<le> length ns \<Longrightarrow> l \<in> set (fst (ring_loop rnd ns todo i k)) \<Longrightarrow>
     source l \<in> dev_id ` set ns \<and> target l \<in> dev_id ` set ns \<and> (is_mesh_link l \<longrightarrow> source l \<noteq> target l)"
proof (induction todo arbitrary: i k)
  case 0
  then show ?case by simp
next
  case (Suc todo)
  obtain ls k' where s: "ring_step rnd ns i k = (ls, k')" by (cases "ring_step rnd ns i k")
  obtain rest k'' where t: "ring_loop rnd ns todo (i + 1) k' = (rest, k'')"
    by (cases "ring_loop rnd ns todo (i + 1) k'")
  from Suc.prems(2) s t have "l \<in> set ls \<or> l \<in> set rest" by simp
  then show ?case
  proof
    assume "l \<in> set ls"
    then have "l \<in> set (fst (ring_step rnd ns i k))" using s by simp
    moreover have "i < length ns" using Suc.prems(1) by simp
    ultimately show ?thesis using ring_step_links [OF r] by blast
  next
    assume "l \<in> set rest"
    then have "l \<in> set (fst (ring_loop rnd ns todo (i + 1) k'))" using t by simp
    moreover have "(i + 1) + todo \<le> length ns" using Suc.prems(1) by simp
    ultimately show ?thesis using Suc.IH by blast
  qed
qed


text \<open>
  C10. For every config list, every link of \<open>generateTopologyFromConfig\<close> has a source and a
  target that are ids of returned nodes; there are links only when there are at least two
  nodes; and a mesh link never joins a node to itself. (\<open>Math.random()\<close> returns values in
  \<open>[0, 1)\<close>.)
\<close>

theorem generateTopologyFromConfig_links_wellformed:
  assumes r: "\<forall>k. 0 \<le> rnd k \<and> rnd k < 1"
  shows "(\<forall>l \<in> set (topo_links (generateTopologyFromConfig rnd configs)).
            source l \<in> dev_id ` set (topo_nodes (generateTopologyFromConfig rnd configs)) \<and>
            target l \<in> dev_id ` set (topo_nodes (generateTopologyFromConfig rnd configs)) \<and>
            (is_mesh_link l \<longrightarrow> source l \<noteq> target l)) \<and>
         (topo_links (generateTopologyFromConfig rnd configs) \<noteq> [] \<longrightarrow>
            2 \<le> length (topo_nodes (generateTopologyFromConfig rnd configs)))"
proof -
  obtain ns k where m: "map_generateDeviceStatus rnd 0 configs = (ns, k)"
    by (cases "map_generateDeviceStatus rnd 0 configs")
  have nodes: "topo_nodes (generateTopologyFromConfig rnd configs) = ns"
    using m by (simp add: generateTopologyFromConfig_def)
  have links: "topo_links (generateTopologyFromConfig rnd configs) =
      (if length ns > 1 then fst (ring_loop rnd ns (length ns) 0 k) else [])"
    using m by (simp add: generateTopologyFromConfig_def)
  show ?thesis
  proof (cases "length ns > 1")
    case True
    have "\<And>l. l \<in> set (fst (ring_loop rnd ns (length ns) 0 k)) \<Longrightarrow>
       source l \<in> dev_id ` set ns \<and> target l \<in> dev_id ` set ns \<and> (is_mesh_link l \<longrightarrow> source l \<noteq> target l)"
      using ring_loop_links [OF r, of 0 "length ns" ns] by simp
    then show ?thesis using True nodes links by auto
  next
    case False
    then show ?thesis using nodes links by simp
  qed
qed



text \<open>
  With four devices and a random stream that takes the mesh branch once, the generator
  returns the ring and the mesh link from \<open>a\<close> to \<open>c\<close>.
\<close>

lemma example_topology_links:
  "map (\<lambda>l. (source l, target l, bandwidth l))
     (topo_links (generateTopologyFromConfig example_rnd example_configs)) =
   [(''a'', ''b'', ''1Gbps''), (''a'', ''c'', ''40Gbps''), (''b'', ''c'', ''1Gbps''),
    (''c'', ''d'', ''1Gbps''), (''d'', ''a'', ''1Gbps'')]"
  by (simp add: generateTopologyFromConfig_def generateDeviceStatus_def ring_step_def
      example_rnd_def example_config_def example_configs_def Let_def show_int_def show_nat.simps)

theorem generateTopologyFromConfig_links_wellformed_witness:
  "(\<forall>k. 0 \<le> example_rnd k \<and> example_rnd k < 1) \<and>
   (\<exists>l \<in> set (topo_links (generateTopologyFromConfig example_rnd example_configs)).
      is_mesh_link l \<and> source l = ''a'' \<and> target l = ''c'' \<and>
      source l \<in> dev_id ` set (topo_nodes (generateTopologyFromConfig example_rnd example_configs)) \<and>
      target l \<in> dev_id ` set (topo_nodes (generateTopologyFromConfig example_rnd example_configs)) \<and>
      source l \<noteq> target l) \<and>
   topo_links (generateTopologyFromConfig example_rnd example_configs) \<noteq> [] \<and>
   2 \<le> length (topo_nodes (generateTopologyFromConfig example_rnd example_configs))"
proof -
  let ?t = "generateTopologyFromConfig example_rnd example_configs"
  have h: "\<forall>k. 0 \<le> example_rnd k \<and> example_rnd k < 1"
    by (simp add: example_rnd_def)
  have "(''a'', ''c'', ''40Gbps'') \<in> set (map (\<lambda>l. (source l, target l, bandwidth l)) (topo_links ?t))"
    by (simp add: example_topology_links)
  then obtain l where l: "l \<in> set (topo_links ?t)" "source l = ''a''" "target l = ''c''"
      "bandwidth l = ''40Gbps''"
    by auto
  have ne: "topo_links ?t \<noteq> []" using l(1) by auto
  from generateTopologyFromConfig_links_wellformed [OF h, of example_configs] l ne
  have "source l \<in> dev_id ` set (topo_nodes ?t)" "target l \<in> dev_id ` set (topo_nodes ?t)"
       "2 \<le> length (topo_nodes ?t)"
    by blast+
  moreover have "is_mesh_link l" using l(4) by (simp add: is_mesh_link_def)
  moreover have "source l \<noteq> target l" using l(2,3) by simp
  ultimately show ?thesis using h l ne by blast
qed

section \<open>Properties of the renderer's colours\<close>

text \<open>
  C8. A node is drawn with the stroke \<open>#10b981\<close> when its status is ONLINE, \<open>#f59e0b\<close> when
  WARNING and \<open>#ef4444\<close> when OFFLINE; a link's line has the stroke \<open>#ef4444\<close> exactly when
  the link's status is DOWN, and the neutral \<open>#475569\<close> otherwise.
\<close>

theorem health_colours:
  "el_stroke (draw_node V i oc s n) =
     (case status (dev (node_heap s n)) of
        ONLINE \<Rightarrow> ''#10b981'' | WARNING \<Rightarrow> ''#f59e0b'' | OFFLINE \<Rightarrow> ''#ef4444'') \<and>
   (line_stroke (draw_line i s l) = ''#ef4444'') = (l_status (link_heap s l) = DOWN) \<and>
   line_stroke (draw_line i s l) =
     (if l_status (link_heap s l) = DOWN then ''#ef4444'' else ''#475569'')"
  by (cases "status (dev (node_heap s n))"; cases "l_status (link_heap s l)")
     (simp_all add: draw_node_def draw_line_def getStatusColor_def link_stroke_def)

section \<open>The effect: copies, node initialisation, link resolution\<close>

lemma copy_nodes_spec:
  "set ns \<subseteq> range Caller \<Longrightarrow> copy_nodes ns s = (cs, s') \<Longrightarrow>
     s' = s\<lparr>node_heap := node_heap s', next_node := next_node s + length ns\<rparr> \<and>
     cs = map Copy [next_node s ..< next_node s + length ns] \<and>
     map (node_heap s') cs = map (node_heap s) ns \<and>
     (\<forall>a. a \<notin> set cs \<longrightarrow> node_heap s' a = node_heap s a)"
proof (induction ns arbitrary: s cs s')
  case Nil
  then show ?case by simp
next
  case (Cons a as)
  let ?c = "Copy (next_node s)"
  let ?s1 = "s\<lparr> node_heap := (node_heap s)(?c := node_heap s a), next_node := next_node s + 1 \<rparr>"
  obtain cs2 s2 where r: "copy_nodes as ?s1 = (cs2, s2)" by (cases "copy_nodes as ?s1")
  from Cons.prems(2) r have cs: "cs = ?c # cs2" and s': "s' = s2" by (simp_all add: Let_def)
  have sub: "set as \<subseteq> range Caller" using Cons.prems(1) by simp
  note ih = Cons.IH [OF sub r]
  have cs2: "cs2 = map Copy [next_node s + 1 ..< next_node s + 1 + length as]" using ih by simp
  have notin: "?c \<notin> set cs2" unfolding cs2 by auto
  have "node_heap s2 ?c = node_heap ?s1 ?c" using ih notin by blast
  then have hd: "node_heap s2 ?c = node_heap s a" by simp
  have "map (node_heap s2) cs2 = map (node_heap ?s1) as" using ih by blast
  also have "\<dots> = map (node_heap s) as" using sub by (auto simp: subset_iff)
  finally have tl: "map (node_heap s2) cs2 = map (node_heap s) as" .
  have rec: "s2 = s\<lparr>node_heap := node_heap s2, next_node := next_node s + length (a # as)\<rparr>"
  proof -
    have "s2 = ?s1\<lparr>node_heap := node_heap s2, next_node := next_node ?s1 + length as\<rparr>" using ih by blast
    then show ?thesis by simp
  qed
  have "[next_node s ..< next_node s + Suc (length as)] =
        next_node s # [Suc (next_node s) ..< next_node s + Suc (length as)]"
    by (rule upt_conv_Cons) simp
  then have lst: "?c # cs2 = map Copy [next_node s ..< next_node s + length (a # as)]"
    unfolding cs2 by simp
  have out: "\<forall>b. b \<notin> set (?c # cs2) \<longrightarrow> node_heap s2 b = node_heap s b"
  proof (intro allI impI)
    fix b assume b: "b \<notin> set (?c # cs2)"
    then have "node_heap s2 b = node_heap ?s1 b" using ih by simp
    then show "node_heap s2 b = node_heap s b" using b by simp
  qed
  have m: "map (node_heap s2) (?c # cs2) = map (node_heap s) (a # as)" using hd tl by simp
  show ?case unfolding cs s' using rec lst m out by blast
qed

lemma copy_links_spec:
  "set ns \<subseteq> range Caller \<Longrightarrow> copy_links ns s = (cs, s') \<Longrightarrow>
     s' = s\<lparr>link_heap := link_heap s', next_link := next_link s + length ns\<rparr> \<and>
     cs = map Copy [next_link s ..< next_link s + length ns] \<and>
     map (link_heap s') cs = map (link_heap s) ns \<and>
     (\<forall>a. a \<notin> set cs \<longrightarrow> link_heap s' a = link_heap s a)"
proof (induction ns arbitrary: s cs s')
  case Nil
  then show ?case by simp
next
  case (Cons a as)
  let ?c = "Copy (next_link s)"
  let ?s1 = "s\<lparr> link_heap := (link_heap s)(?c := link_heap s a), next_link := next_link s + 1 \<rparr>"
  obtain cs2 s2 where r: "copy_links as ?s1 = (cs2, s2)" by (cases "copy_links as ?s1")
  from Cons.prems(2) r have cs: "cs = ?c # cs2" and s': "s' = s2" by (simp_all add: Let_def)
  have sub: "set as \<subseteq> range Caller" using Cons.prems(1) by simp
  note ih = Cons.IH [OF sub r]
  have cs2: "cs2 = map Copy [next_link s + 1 ..< next_link s + 1 + length as]" using ih by simp
  have notin: "?c \<notin> set cs2" unfolding cs2 by auto
  have "link_heap s2 ?c = link_heap ?s1 ?c" using ih notin by blast
  then have hd: "link_heap s2 ?c = link_heap s a" by simp
  have "map (link_heap s2) cs2 = map (link_heap ?s1) as" using ih by blast
  also have "\<dots> = map (link_heap s) as" using sub by (auto simp: subset_iff)
  finally have tl: "map (link_heap s2) cs2 = map (link_heap s) as" .
  have rec: "s2 = s\<lparr>link_heap := link_heap s2, next_link := next_link s + length (a # as)\<rparr>"
  proof -
    have "s2 = ?s1\<lparr>link_heap := link_heap s2, next_link := next_link ?s1 + length as\<rparr>" using ih by blast
    then show ?thesis by simp
  qed
  have "[next_link s ..< next_link s + Suc (length as)] =
        next_link s # [Suc (next_link s) ..< next_link s + Suc (length as)]"
    by (rule upt_conv_Cons) simp
  then have lst: "?c # cs2 = map Copy [next_link s ..< next_link s + length (a # as)]"
    unfolding cs2 by simp
  have out: "\<forall>b. b \<notin> set (?c # cs2) \<longrightarrow> link_heap s2 b = link_heap s b"
  proof (intro allI impI)
    fix b assume b: "b \<notin> set (?c # cs2)"
    then have "link_heap s2 b = link_heap ?s1 b" using ih by simp
    then show "link_heap s2 b = link_heap s b" using b by simp
  qed
  have m: "map (link_heap s2) (?c # cs2) = map (link_heap s) (a # as)" using hd tl by simp
  show ?case unfolding cs s' using rec lst m out by blast
qed


lemma initializeNode_dev: "dev (initializeNode P i d) = dev d"
  by (simp add: initializeNode_def Let_def)

lemma initializeNodes_dev: "dev (initializeNodes P as i h a) = dev (h a)"
  by (induction as arbitrary: i h) (simp_all add: initializeNode_dev)

lemma initializeNodes_other: "a \<notin> set as \<Longrightarrow> initializeNodes P as i h a = h a"
  by (induction as arbitrary: i h) simp_all

lemma node_ids_initializeNodes: "node_ids (initializeNodes P as i h) ns = node_ids h ns"
  by (simp add: node_ids_def initializeNodes_dev)

lemma nodeById_None: "(nodeById h ns x = None) = (x \<notin> node_ids h ns)"
  by (auto simp: nodeById_def node_ids_def find_None_iff)

lemma find_SomeD: "List.find Q xs = Some x \<Longrightarrow> x \<in> set xs \<and> Q x"
  by (induction xs) (auto split: if_splits)

lemma nodeById_Some: "nodeById h ns x = Some a \<Longrightarrow> a \<in> set ns \<and> dev_id (dev (h a)) = x"
  unfolding nodeById_def by (drule find_SomeD) simp

lemma find_node_Inl:
  "find_node h ns e = Inl err \<Longrightarrow>
   endpoint_unknown h ns e \<and> (\<exists>x. err = NodeNotFound x \<and> e = Id x \<and> x \<notin> node_ids h ns)"
  by (auto simp: find_node_def endpoint_unknown_def nodeById_None split: endpoint.splits option.splits)

lemma find_node_Inr: "find_node h ns e = Inr e' \<Longrightarrow> \<not> endpoint_unknown h ns e \<and> resolves h ns e e'"
  by (auto simp: find_node_def endpoint_unknown_def resolves_def nodeById_None [symmetric]
      dest: nodeById_Some split: endpoint.splits option.splits)

lemma find_node_dangling:
  "endpoint_unknown h ns e \<Longrightarrow> \<exists>x. find_node h ns e = Inl (NodeNotFound x) \<and> x \<notin> node_ids h ns"
  by (cases "find_node h ns e") (auto dest: find_node_Inl find_node_Inr)

lemma find_node_present: "\<not> endpoint_unknown h ns e \<Longrightarrow> \<exists>e'. find_node h ns e = Inr e'"
  by (cases "find_node h ns e") (auto dest: find_node_Inl)

lemma forceLink_initialize_dangling:
  "l \<in> set ls \<Longrightarrow>
   endpoint_unknown h ns (l_source (lh l)) \<or> endpoint_unknown h ns (l_target (lh l)) \<Longrightarrow>
   \<exists>x. forceLink_initialize h ns ls i lh = Inl (NodeNotFound x) \<and> x \<notin> node_ids h ns"
proof (induction ls arbitrary: i lh)
  case Nil
  then show ?case by simp
next
  case (Cons l0 ls)
  let ?d = "(lh l0)\<lparr>l_index := Some i\<rparr>"
  show ?case
  proof (cases "find_node h ns (l_source ?d)")
    case (Inl e)
    then show ?thesis using find_node_Inl [OF Inl] by auto
  next
    case src: (Inr src)
    show ?thesis
    proof (cases "find_node h ns (l_target ?d)")
      case (Inl e)
      then show ?thesis using src find_node_Inl [OF Inl] by auto
    next
      case tgt: (Inr tgt)
      have ok0: "\<not> endpoint_unknown h ns (l_source (lh l0))" "\<not> endpoint_unknown h ns (l_target (lh l0))"
        using find_node_Inr [OF src] find_node_Inr [OF tgt] by simp_all
      then have ne: "l \<noteq> l0" using Cons.prems(2) by auto
      let ?lh = "lh(l0 := ?d\<lparr>l_source := src, l_target := tgt\<rparr>)"
      have "l \<in> set ls" using Cons.prems(1) ne by simp
      moreover have "endpoint_unknown h ns (l_source (?lh l)) \<or> endpoint_unknown h ns (l_target (?lh l))"
        using Cons.prems(2) ne by simp
      ultimately have "\<exists>x. forceLink_initialize h ns ls (i + 1) ?lh = Inl (NodeNotFound x) \<and> x \<notin> node_ids h ns"
        by (rule Cons.IH)
      then show ?thesis using src tgt by simp
    qed
  qed
qed

lemma resolves_NodeRef: "resolves h ns e (NodeRef a) \<Longrightarrow> resolves h ns (NodeRef a) e' \<Longrightarrow> resolves h ns e e'"
  by (auto simp: resolves_def split: endpoint.splits)

lemma resolves_is_ref: "resolves h ns e e' \<Longrightarrow> \<exists>a. e' = NodeRef a"
  by (auto simp: resolves_def split: endpoint.splits)

lemma forceLink_initialize_present:
  "\<forall>l \<in> set ls. \<not> endpoint_unknown h ns (l_source (lh l)) \<and> \<not> endpoint_unknown h ns (l_target (lh l)) \<Longrightarrow>
   \<exists>lh'. forceLink_initialize h ns ls i lh = Inr lh' \<and>
     (\<forall>l \<in> set ls. resolves h ns (l_source (lh l)) (l_source (lh' l)) \<and>
                    resolves h ns (l_target (lh l)) (l_target (lh' l))) \<and>
     (\<forall>l. l \<notin> set ls \<longrightarrow> lh' l = lh l) \<and>
     (\<forall>l. l_status (lh' l) = l_status (lh l))"
proof (induction ls arbitrary: i lh)
  case Nil
  then show ?case by simp
next
  case (Cons l0 ls)
  let ?d = "(lh l0)\<lparr>l_index := Some i\<rparr>"
  obtain src where src: "find_node h ns (l_source ?d) = Inr src"
    using find_node_present [of h ns "l_source (lh l0)"] Cons.prems by auto
  obtain tgt where tgt: "find_node h ns (l_target ?d) = Inr tgt"
    using find_node_present [of h ns "l_target (lh l0)"] Cons.prems by auto
  let ?lh = "lh(l0 := ?d\<lparr>l_source := src, l_target := tgt\<rparr>)"
  have rs: "resolves h ns (l_source (lh l0)) src" "resolves h ns (l_target (lh l0)) tgt"
    using find_node_Inr [OF src] find_node_Inr [OF tgt] by simp_all
  obtain a b where ab: "src = NodeRef a" "tgt = NodeRef b"
    using rs resolves_is_ref by blast
  have pre: "\<forall>l \<in> set ls. \<not> endpoint_unknown h ns (l_source (?lh l)) \<and> \<not> endpoint_unknown h ns (l_target (?lh l))"
    using Cons.prems ab by (auto simp: endpoint_unknown_def)
  from Cons.IH [OF pre, of "i + 1"] obtain lh' where
    r: "forceLink_initialize h ns ls (i + 1) ?lh = Inr lh'" and
    res: "\<forall>l \<in> set ls. resolves h ns (l_source (?lh l)) (l_source (lh' l)) \<and>
                    resolves h ns (l_target (?lh l)) (l_target (lh' l))" and
    out: "\<forall>l. l \<notin> set ls \<longrightarrow> lh' l = ?lh l" and
    st: "\<forall>l. l_status (lh' l) = l_status (?lh l)"
    by blast
  have eq: "forceLink_initialize h ns (l0 # ls) i lh = Inr lh'" using src tgt r by simp
  have res': "\<forall>l \<in> set (l0 # ls). resolves h ns (l_source (lh l)) (l_source (lh' l)) \<and>
                    resolves h ns (l_target (lh l)) (l_target (lh' l))"
  proof
    fix l assume l: "l \<in> set (l0 # ls)"
    show "resolves h ns (l_source (lh l)) (l_source (lh' l)) \<and>
          resolves h ns (l_target (lh l)) (l_target (lh' l))"
    proof (cases "l = l0")
      case True
      show ?thesis
      proof (cases "l0 \<in> set ls")
        case True
        then have "resolves h ns (NodeRef a) (l_source (lh' l0))" "resolves h ns (NodeRef b) (l_target (lh' l0))"
          using res ab by auto
        then show ?thesis using rs ab \<open>l = l0\<close> resolves_NodeRef by blast
      next
        case False
        then have "lh' l0 = ?lh l0" using out by blast
        then show ?thesis using rs \<open>l = l0\<close> by simp
      qed
    next
      case False
      then have "l \<in> set ls" using l by simp
      then show ?thesis using res False by auto
    qed
  qed
  have out': "\<forall>l. l \<notin> set (l0 # ls) \<longrightarrow> lh' l = lh l" using out by auto
  have st': "\<forall>l. l_status (lh' l) = l_status (lh l)" using st by auto
  show ?case using eq res' out' st' by blast
qed

lemma copy_nodes_fields:
  "copy_nodes ns s = (cs, s') \<Longrightarrow>
     link_heap s' = link_heap s \<and> next_link s' = next_link s \<and> svgRef_current s' = svgRef_current s \<and>
     wrapperRef_current s' = wrapperRef_current s \<and> unmounted s' = unmounted s \<and> sims s' = sims s \<and>
     next_sim s' = next_sim s \<and> cleanup s' = cleanup s \<and> dom_lines s' = dom_lines s \<and>
     dom_nodes s' = dom_nodes s \<and> drag_gesture s' = drag_gesture s \<and> tick_log s' = tick_log s \<and>
     selected s' = selected s"
  by (induction ns arbitrary: s cs s') (auto simp: Let_def split: prod.splits)

lemma copy_links_fields:
  "copy_links ls s = (cs, s') \<Longrightarrow>
     node_heap s' = node_heap s \<and> next_node s' = next_node s \<and> svgRef_current s' = svgRef_current s \<and>
     wrapperRef_current s' = wrapperRef_current s \<and> unmounted s' = unmounted s \<and> sims s' = sims s \<and>
     next_sim s' = next_sim s \<and> cleanup s' = cleanup s \<and> dom_lines s' = dom_lines s \<and>
     dom_nodes s' = dom_nodes s \<and> drag_gesture s' = drag_gesture s \<and> tick_log s' = tick_log s \<and>
     selected s' = selected s"
  by (induction ls arbitrary: s cs s') (auto simp: Let_def split: prod.splits)

lemma force_link_cases:
  "(if \<exists>l \<in> set sl. link_unknown (node_heap s) (sim_nodes (sims s i)) (link_heap s l)
    then \<exists>x. force_link i sl s = Inl (NodeNotFound x) \<and> x \<notin> node_ids (node_heap s) (sim_nodes (sims s i))
    else \<exists>lh. force_link i sl s = Inr (s\<lparr> link_heap := lh, sims := (sims s)(i := (sims s i)\<lparr>sim_links := sl\<rparr>) \<rparr>) \<and>
           (\<forall>l \<in> set sl.
              resolves (node_heap s) (sim_nodes (sims s i)) (l_source (link_heap s l)) (l_source (lh l)) \<and>
              resolves (node_heap s) (sim_nodes (sims s i)) (l_target (link_heap s l)) (l_target (lh l))))"
proof (cases "\<exists>l \<in> set sl. link_unknown (node_heap s) (sim_nodes (sims s i)) (link_heap s l)")
  case True
  then obtain l where l: "l \<in> set sl"
    "endpoint_unknown (node_heap s) (sim_nodes (sims s i)) (l_source (link_heap s l)) \<or>
     endpoint_unknown (node_heap s) (sim_nodes (sims s i)) (l_target (link_heap s l))"
    by (auto simp: link_unknown_def)
  have "\<exists>x. forceLink_initialize (node_heap s) (sim_nodes (sims s i)) sl 0 (link_heap s) = Inl (NodeNotFound x) \<and>
            x \<notin> node_ids (node_heap s) (sim_nodes (sims s i))"
    using l by (rule forceLink_initialize_dangling [where lh = "link_heap s"])
  then show ?thesis using True by (auto simp: force_link_def)
next
  case False
  then have "\<forall>l \<in> set sl. \<not> endpoint_unknown (node_heap s) (sim_nodes (sims s i)) (l_source (link_heap s l)) \<and>
      \<not> endpoint_unknown (node_heap s) (sim_nodes (sims s i)) (l_target (link_heap s l))"
    by (auto simp: link_unknown_def)
  from forceLink_initialize_present [where lh = "link_heap s" and i = 0, OF this] obtain lh where
    r: "forceLink_initialize (node_heap s) (sim_nodes (sims s i)) sl 0 (link_heap s) = Inr lh" and
    res: "\<forall>l \<in> set sl. resolves (node_heap s) (sim_nodes (sims s i)) (l_source (link_heap s l)) (l_source (lh l)) \<and>
        resolves (node_heap s) (sim_nodes (sims s i)) (l_target (link_heap s l)) (l_target (lh l))"
    by blast
  show ?thesis using False r res by (auto simp: force_link_def)
qed

lemma resolves_ids:
  "(\<And>a. dev (h' a) = dev (h a)) \<Longrightarrow> resolves h' ns e e' = resolves h ns e e'"
  by (simp add: resolves_def split: endpoint.splits)

lemma link_unknown_ids:
  "node_ids h ns = node_ids h' ns' \<Longrightarrow> link_unknown h ns d = link_unknown h' ns' d"
  by (simp add: link_unknown_def endpoint_unknown_def split: endpoint.splits)

lemma node_ids_map: "map h' cs = map h ns \<Longrightarrow> node_ids h' cs = node_ids h ns"
proof -
  assume "map h' cs = map h ns"
  then have "set (map (\<lambda>a. dev_id (dev a)) (map h' cs)) = set (map (\<lambda>a. dev_id (dev a)) (map h ns))" by simp
  then show ?thesis by (simp add: node_ids_def image_image)
qed

text \<open>The effect after its guard, on the arrays the simulation gets.\<close>

lemma effect_core:
  fixes s3 :: state
  defines "i \<equiv> next_sim s3"
  shows "(if \<exists>l \<in> set sl. link_unknown (node_heap s3) sn (link_heap s3 l)
    then \<exists>x. force_link i sl (forceSimulation P sn s3) = Inl (NodeNotFound x) \<and> x \<notin> node_ids (node_heap s3) sn
    else \<exists>s5. force_link i sl (forceSimulation P sn s3) = Inr s5 \<and>
           sim_links (sims s5 i) = sl \<and> sim_nodes (sims s5 i) = sn \<and> next_sim s5 = Suc i \<and>
           (\<forall>a. dev (node_heap s5 a) = dev (node_heap s3 a)) \<and>
           (\<forall>l \<in> set sl.
              resolves (node_heap s5) sn (l_source (link_heap s3 l)) (l_source (link_heap s5 l)) \<and>
              resolves (node_heap s5) sn (l_target (link_heap s3 l)) (l_target (link_heap s5 l))))"
proof -
  let ?s4 = "forceSimulation P sn s3"
  have n: "sim_nodes (sims ?s4 i) = sn" by (simp add: forceSimulation_def i_def)
  have h: "node_ids (node_heap ?s4) sn = node_ids (node_heap s3) sn"
    by (simp add: forceSimulation_def node_ids_initializeNodes)
  have dv: "dev (node_heap ?s4 a) = dev (node_heap s3 a)" for a
    by (simp add: forceSimulation_def initializeNodes_dev)
  have lh: "link_heap ?s4 = link_heap s3" by (simp add: forceSimulation_def)
  have d: "\<And>l. link_unknown (node_heap ?s4) (sim_nodes (sims ?s4 i)) (link_heap ?s4 l) =
      link_unknown (node_heap s3) sn (link_heap s3 l)"
    unfolding n lh by (rule link_unknown_ids) (rule h)
  have nx: "next_sim ?s4 = Suc i" by (simp add: forceSimulation_def i_def)
  have fc: "(\<exists>l \<in> set sl. link_unknown (node_heap ?s4) (sim_nodes (sims ?s4 i)) (link_heap ?s4 l)) =
            (\<exists>l \<in> set sl. link_unknown (node_heap s3) sn (link_heap s3 l))"
    using d by simp
  note fl = force_link_cases [of sl ?s4 i, unfolded fc]
  show ?thesis
  proof (cases "\<exists>l \<in> set sl. link_unknown (node_heap s3) sn (link_heap s3 l)")
    case True
    then show ?thesis using fl by (simp add: n h)
  next
    case False
    from fl False obtain lh' where
      r: "force_link i sl ?s4 = Inr (?s4\<lparr> link_heap := lh', sims := (sims ?s4)(i := (sims ?s4 i)\<lparr>sim_links := sl\<rparr>) \<rparr>)" and
      res: "\<forall>l \<in> set sl.
              resolves (node_heap ?s4) sn (l_source (link_heap s3 l)) (l_source (lh' l)) \<and>
              resolves (node_heap ?s4) sn (l_target (link_heap s3 l)) (l_target (lh' l))"
      unfolding n lh by auto
    show ?thesis using False r res dv n nx by simp
  qed
qed

lemma effect_after_guard:
  assumes "svgRef_current s" "wrapperRef_current s" "V = V1 \<longrightarrow> ns \<noteq> []"
    and "(sn, s1) = (if V = V1 then (ns, s) else copy_nodes ns s)"
    and "(sl, s2) = (if V = V1 then (ls, s1) else copy_links ls s1)"
  shows "useEffect_body V P ns ls oc s =
    (case force_link (next_sim s2) sl (forceSimulation P sn (s2\<lparr>dom_lines := [], dom_nodes := []\<rparr>)) of
       Inl e \<Rightarrow> Inl e
     | Inr s5 \<Rightarrow> Inr ((simulation_on_tick (next_sim s2)
          (s5\<lparr>dom_lines := map (draw_line (next_sim s2) s5) sl,
               dom_nodes := map (draw_node V (next_sim s2) oc (s5\<lparr>dom_lines := map (draw_line (next_sim s2) s5) sl\<rparr>)) sn\<rparr>))
          \<lparr>cleanup := Some (next_sim s2)\<rparr>))"
  using assms(1-3) assms(4) [symmetric] assms(5) [symmetric]
  by (auto simp add: useEffect_body_def Let_def split: sum.splits)

lemma effect_inputs:
  assumes "set ns \<subseteq> range Caller" "set ls \<subseteq> range Caller"
    and "(sn, s1) = (if V = V1 then (ns, s) else copy_nodes ns s)"
    and "(sl, s2) = (if V = V1 then (ls, s1) else copy_links ls s1)"
  shows "next_sim s2 = next_sim s \<and> length sl = length ls \<and> length sn = length ns \<and>
         node_ids (node_heap s2) sn = node_ids (node_heap s) ns \<and>
         map (link_heap s2) sl = map (link_heap s) ls \<and>
         map (node_heap s2) sn = map (node_heap s) ns"
proof (cases "V = V1")
  case True
  then show ?thesis using assms(3,4) by simp
next
  case False
  have c1: "copy_nodes ns s = (sn, s1)" using assms(3) False by simp
  have c2: "copy_links ls s1 = (sl, s2)" using assms(4) False by simp
  note f1 = copy_nodes_fields [OF c1] and f2 = copy_links_fields [OF c2]
  note p1 = copy_nodes_spec [OF assms(1) c1]
  have ls1: "set ls \<subseteq> range Caller" by (rule assms(2))
  note p2 = copy_links_spec [OF ls1 c2]
  have "map (node_heap s1) sn = map (node_heap s) ns" using p1 by blast
  moreover have "node_heap s2 = node_heap s1" using f2 by blast
  ultimately have nm: "map (node_heap s2) sn = map (node_heap s) ns" by simp
  then have ids: "node_ids (node_heap s2) sn = node_ids (node_heap s) ns" by (rule node_ids_map)
  have "map (link_heap s2) sl = map (link_heap s1) ls" using p2 by blast
  then have lk: "map (link_heap s2) sl = map (link_heap s) ls" using f1 by simp
  have "length (map (link_heap s2) sl) = length (map (link_heap s) ls)" using lk by simp
  then have len1: "length sl = length ls" by simp
  have "sn = map Copy [next_node s ..< next_node s + length ns]" using p1 by blast
  then have len2: "length sn = length ns" by simp
  note len = len1 len2
  show ?thesis using f1 f2 ids lk len nm by simp
qed

text \<open>
  C1, as amended. No link is ever dropped. The effect returns at its guard when a ref is not
  attached (React attaches them before it runs the effect) and, in the guarded variant, when
  the node list is empty. Otherwise, if some supplied link has a source or target
  that is still an id and no supplied node has that id, initialising the link force raises
  \<open>node not found\<close> for such an id and the effect stops there, before any line or node
  element is appended. If there is no such link the effect keeps every supplied link, in
  order: the simulation's link array is the data of the rendered lines, one per supplied
  link, the simulation's nodes are the supplied devices, and in each link an endpoint that
  was an id is now a node object of the simulation with that id, while an endpoint that was
  a node object already (left there by an earlier render of the guarded variant, which
  hands the caller's link objects to the link force) is still that object, whether or not
  it is among the supplied nodes.
\<close>

theorem dangling_link_aborts_effect:
  assumes caller: "set ns \<subseteq> range Caller" "set ls \<subseteq> range Caller"
  shows "if \<not> svgRef_current s \<or> \<not> wrapperRef_current s \<or> (V = V1 \<and> ns = [])
         then useEffect_body V P ns ls oc s = Inr (s\<lparr>cleanup := None\<rparr>)
         else if \<exists>l \<in> set ls. unknown_id s ns l
         then \<exists>x. useEffect_body V P ns ls oc s = Inl (NodeNotFound x) \<and> x \<notin> node_ids (node_heap s) ns
         else \<exists>s'. useEffect_body V P ns ls oc s = Inr s' \<and>
                length (dom_lines s') = length ls \<and>
                sim_links (sims s' (next_sim s)) = map line_datum (dom_lines s') \<and>
                map (\<lambda>a. dev (node_heap s' a)) (sim_nodes (sims s' (next_sim s))) =
                  map (\<lambda>a. dev (node_heap s a)) ns \<and>
                (\<forall>k < length ls.
                    resolves (node_heap s') (sim_nodes (sims s' (next_sim s)))
                      (l_source (link_heap s (ls ! k)))
                      (l_source (link_heap s' (line_datum (dom_lines s' ! k)))) \<and>
                    resolves (node_heap s') (sim_nodes (sims s' (next_sim s)))
                      (l_target (link_heap s (ls ! k)))
                      (l_target (link_heap s' (line_datum (dom_lines s' ! k)))))"
proof (cases "\<not> svgRef_current s \<or> \<not> wrapperRef_current s \<or> (V = V1 \<and> ns = [])")
  case True
  then show ?thesis by (auto simp: useEffect_body_def)
next
  case guard: False
  then have nonempty: "V = V1 \<longrightarrow> ns \<noteq> []"
    and refs: "svgRef_current s" "wrapperRef_current s" by simp_all
  obtain sn s1 where a: "(sn, s1) = (if V = V1 then (ns, s) else copy_nodes ns s)"
    by (metis surj_pair)
  obtain sl s2 where b: "(sl, s2) = (if V = V1 then (ls, s1) else copy_links ls s1)"
    by (metis surj_pair)
  note eq = effect_after_guard [OF refs nonempty a b, of P oc]
  note inp = effect_inputs [OF caller a b]
  let ?i = "next_sim s"
  let ?s3 = "s2\<lparr>dom_lines := [], dom_nodes := []\<rparr>"
  have i: "next_sim ?s3 = ?i" using inp by simp
  have ids: "node_ids (node_heap ?s3) sn = node_ids (node_heap s) ns" using inp by simp
  have dd: "(\<exists>l \<in> set sl. link_unknown (node_heap ?s3) sn (link_heap ?s3 l)) = (\<exists>l \<in> set ls. unknown_id s ns l)"
  proof -
    have "(\<exists>l \<in> set sl. link_unknown (node_heap s2) sn (link_heap s2 l)) =
          (\<exists>d \<in> set (map (link_heap s2) sl). link_unknown (node_heap s2) sn d)" by simp
    also have "\<dots> = (\<exists>d \<in> set (map (link_heap s) ls). link_unknown (node_heap s2) sn d)"
      using inp by simp
    also have "\<dots> = (\<exists>l \<in> set ls. link_unknown (node_heap s) ns (link_heap s l))"
      using link_unknown_ids [of "node_heap s2" sn "node_heap s" ns] inp by simp
    finally show ?thesis by (simp add: unknown_id_def)
  qed
  note core = effect_core [of sl ?s3 sn P, unfolded i dd ids]
  show ?thesis
  proof (cases "\<exists>l \<in> set ls. unknown_id s ns l")
    case True
    then obtain x where "force_link ?i sl (forceSimulation P sn ?s3) = Inl (NodeNotFound x)"
      "x \<notin> node_ids (node_heap s) ns"
      using core by auto
    then have "useEffect_body V P ns ls oc s = Inl (NodeNotFound x) \<and> x \<notin> node_ids (node_heap s) ns"
      using eq inp by simp
    then show ?thesis using True guard by auto
  next
    case False
    then obtain s5 where r: "force_link ?i sl (forceSimulation P sn ?s3) = Inr s5"
      and sl: "sim_links (sims s5 ?i) = sl" and sn: "sim_nodes (sims s5 ?i) = sn"
      and dv: "\<forall>a. dev (node_heap s5 a) = dev (node_heap ?s3 a)"
      and res: "\<forall>l \<in> set sl.
              resolves (node_heap s5) sn (l_source (link_heap ?s3 l)) (l_source (link_heap s5 l)) \<and>
              resolves (node_heap s5) sn (l_target (link_heap ?s3 l)) (l_target (link_heap s5 l))"
      using core by auto
    let ?s' = "(simulation_on_tick ?i
          (s5\<lparr>dom_lines := map (draw_line ?i s5) sl,
               dom_nodes := map (draw_node V ?i oc (s5\<lparr>dom_lines := map (draw_line ?i s5) sl\<rparr>)) sn\<rparr>))
          \<lparr>cleanup := Some ?i\<rparr>"
    have e: "useEffect_body V P ns ls oc s = Inr ?s'" using eq inp r by simp
    have 1: "dom_lines ?s' = map (draw_line ?i s5) sl" by (simp add: simulation_on_tick_def)
    have 2: "sim_links (sims ?s' ?i) = sl" using sl by (simp add: simulation_on_tick_def)
    have 3: "link_heap ?s' = link_heap s5" "node_heap ?s' = node_heap s5"
      by (simp_all add: simulation_on_tick_def)
    have 4: "sim_nodes (sims ?s' ?i) = sn" using sn by (simp add: simulation_on_tick_def)
    have len: "length sl = length ls" using inp by simp
    have c1: "length (dom_lines ?s') = length ls" using 1 len by simp
    have c2: "sim_links (sims ?s' ?i) = map line_datum (dom_lines ?s')"
      unfolding 1 2 by (simp add: draw_line_def comp_def)
    have c3: "map (\<lambda>a. dev (node_heap ?s' a)) (sim_nodes (sims ?s' ?i)) = map (\<lambda>a. dev (node_heap s a)) ns"
    proof -
      have "map (\<lambda>a. dev (node_heap s5 a)) sn = map (\<lambda>a. dev (node_heap s2 a)) sn" using dv by simp
      also have "\<dots> = map dev (map (node_heap s2) sn)" by (simp add: comp_def)
      also have "\<dots> = map dev (map (node_heap s) ns)" using inp by simp
      finally show ?thesis unfolding 3 4 by (simp add: comp_def)
    qed
    have c4: "resolves (node_heap ?s') (sim_nodes (sims ?s' ?i))
                (l_source (link_heap s (ls ! k))) (l_source (link_heap ?s' (line_datum (dom_lines ?s' ! k)))) \<and>
              resolves (node_heap ?s') (sim_nodes (sims ?s' ?i))
                (l_target (link_heap s (ls ! k))) (l_target (link_heap ?s' (line_datum (dom_lines ?s' ! k))))"
      if k: "k < length ls" for k
    proof -
      have ks: "k < length sl" using k len by simp
      then have m: "sl ! k \<in> set sl" by simp
      have "map (link_heap s2) sl ! k = map (link_heap s) ls ! k" using inp by simp
      then have lk: "link_heap ?s3 (sl ! k) = link_heap s (ls ! k)" using ks k by simp
      have ld: "line_datum (dom_lines ?s' ! k) = sl ! k" unfolding 1 using ks by (simp add: draw_line_def)
      show ?thesis unfolding 3 4 ld using res m lk by auto
    qed
    show ?thesis using False guard e c1 c2 c3 c4 by auto
  qed
qed

lemmas example_defs = example_device_def example_node_def example_link_def example_node_heap_def
  example_link_heap_def example_place_def example_forces_def example_init_def init_state_def

lemmas effect_defs = render_def useEffect_body_def forceSimulation_def force_link_def
  find_node_def nodeById_def simulation_on_tick_def simulation_stop_def draw_line_def draw_node_def
  initializeNode_def Let_def

text \<open>
  The theorem at the example store, on the copying variant with devices \<open>a\<close> and \<open>b\<close>: with
  link 1, whose target id \<open>ghost\<close> no device has, the effect raises; with link 0 alone it
  draws one line, from the copy of \<open>a\<close> to the copy of \<open>b\<close>. On the guarded variant with no
  nodes the effect returns at its guard.
\<close>

theorem dangling_link_aborts_effect_witness:
  "svgRef_current example_mounted \<and> wrapperRef_current example_mounted \<and>
   set [Caller 0, Caller 1] \<subseteq> range Caller \<and>
   set [Caller 0] \<subseteq> range Caller \<and> set [] \<subseteq> range Caller \<and> set [Caller 1] \<subseteq> range Caller \<and>
   (\<exists>l \<in> set [Caller 0, Caller 1]. unknown_id example_mounted [Caller 0, Caller 1] l) \<and>
   (\<exists>x. useEffect_body V2 example_place [Caller 0, Caller 1] [Caller 0, Caller 1] False example_mounted
        = Inl (NodeNotFound x) \<and> x \<notin> node_ids (node_heap example_mounted) [Caller 0, Caller 1]) \<and>
   \<not> (\<exists>l \<in> set [Caller 0]. unknown_id example_mounted [Caller 0, Caller 1] l) \<and>
   (\<exists>s'. useEffect_body V2 example_place [Caller 0, Caller 1] [Caller 0] False example_mounted = Inr s' \<and>
         length (dom_lines s') = 1 \<and>
         sim_links (sims s' 0) = map line_datum (dom_lines s') \<and>
         resolves (node_heap s') (sim_nodes (sims s' 0)) (Id ''a'')
           (l_source (link_heap s' (line_datum (dom_lines s' ! 0)))) \<and>
         resolves (node_heap s') (sim_nodes (sims s' 0)) (Id ''b'')
           (l_target (link_heap s' (line_datum (dom_lines s' ! 0))))) \<and>
   useEffect_body V1 example_place [] [Caller 1] False example_mounted
     = Inr (example_mounted\<lparr>cleanup := None\<rparr>)"
proof -
  have r: "svgRef_current example_mounted" "wrapperRef_current example_mounted"
    by (simp_all add: example_mounted_def)
  have c: "set [Caller 0, Caller 1] \<subseteq> range Caller" "set [Caller 0] \<subseteq> range Caller"
    "set [] \<subseteq> range Caller" "set [Caller 1] \<subseteq> range Caller" by auto
  have d1: "\<exists>l \<in> set [Caller 0, Caller 1]. unknown_id example_mounted [Caller 0, Caller 1] l"
    by (simp add: example_mounted_def example_defs unknown_id_def link_unknown_def
        endpoint_unknown_def node_ids_def)
  have d0: "\<not> (\<exists>l \<in> set [Caller 0]. unknown_id example_mounted [Caller 0, Caller 1] l)"
    by (simp add: example_mounted_def example_defs unknown_id_def link_unknown_def
        endpoint_unknown_def node_ids_def)
  have n: "next_sim example_mounted = 0" by (simp add: example_mounted_def example_defs)
  have l0: "l_source (link_heap example_mounted (Caller 0)) = Id ''a''"
    "l_target (link_heap example_mounted (Caller 0)) = Id ''b''"
    by (simp_all add: example_mounted_def example_defs)
  from dangling_link_aborts_effect [OF c(1) c(1), of example_mounted V2 example_place False] d1 r
  have a: "\<exists>x. useEffect_body V2 example_place [Caller 0, Caller 1] [Caller 0, Caller 1] False example_mounted
        = Inl (NodeNotFound x) \<and> x \<notin> node_ids (node_heap example_mounted) [Caller 0, Caller 1]"
    by simp
  from dangling_link_aborts_effect [OF c(1) c(2), of example_mounted V2 example_place False] d0 r
  have b: "\<exists>s'. useEffect_body V2 example_place [Caller 0, Caller 1] [Caller 0] False example_mounted = Inr s' \<and>
         length (dom_lines s') = 1 \<and>
         sim_links (sims s' 0) = map line_datum (dom_lines s') \<and>
         resolves (node_heap s') (sim_nodes (sims s' 0)) (Id ''a'')
           (l_source (link_heap s' (line_datum (dom_lines s' ! 0)))) \<and>
         resolves (node_heap s') (sim_nodes (sims s' 0)) (Id ''b'')
           (l_target (link_heap s' (line_datum (dom_lines s' ! 0))))"
    unfolding n by (simp add: l0) blast
  from dangling_link_aborts_effect [OF c(3) c(4), of example_mounted V1 example_place False]
  have g: "useEffect_body V1 example_place [] [Caller 1] False example_mounted
     = Inr (example_mounted\<lparr>cleanup := None\<rparr>)"
    by simp
  show ?thesis using r c d1 d0 a b g by blast
qed

text \<open>
  C1 as stated fails: in both cited variants a render whose second link names the id
  \<open>ghost\<close>, which no node has, ends in the exception instead of a view without that link.
\<close>

theorem dangling_link_dropped_counterexample:
  "run V1 example_place example_forces [Render [Caller 0, Caller 1] [Caller 0, Caller 1] False] example_init
     = Inl (NodeNotFound ''ghost'') \<and>
   run V2 example_place example_forces [Render [Caller 0, Caller 1] [Caller 0, Caller 1] False] example_init
     = Inl (NodeNotFound ''ghost'')"
  by (simp add: example_defs effect_defs)

text \<open>
  An endpoint that is a node object already: the guarded variant rendered with devices \<open>a\<close>,
  \<open>b\<close> and their link, then with device \<open>a\<close> alone and the same link object. The second
  link force finds objects in the link, looks nothing up and raises nothing; the line is
  drawn, to node object 1, which is not a node of the new simulation.
\<close>

lemma resolved_link_is_kept:
  "\<not> isl (run V1 example_place example_forces
      [Render [Caller 0, Caller 1] [Caller 0] False, Render [Caller 0] [Caller 0] False] example_init) \<and>
   sim_nodes (sims (projr (run V1 example_place example_forces
      [Render [Caller 0, Caller 1] [Caller 0] False, Render [Caller 0] [Caller 0] False] example_init)) 1)
     = [Caller 0] \<and>
   map line_datum (dom_lines (projr (run V1 example_place example_forces
      [Render [Caller 0, Caller 1] [Caller 0] False, Render [Caller 0] [Caller 0] False] example_init)))
     = [Caller 0] \<and>
   l_target (link_heap (projr (run V1 example_place example_forces
      [Render [Caller 0, Caller 1] [Caller 0] False, Render [Caller 0] [Caller 0] False] example_init))
      (Caller 0)) = NodeRef (Caller 1)"
  by (simp add: example_defs effect_defs)

section \<open>The effect on an empty node list\<close>

text \<open>The guarded variant: with no nodes the effect returns at its guard, for any links.\<close>

lemma guarded_variant_empty_nodes:
  "useEffect_body V1 P [] ls oc s = Inr (s\<lparr>cleanup := None\<rparr>)"
  by (simp add: useEffect_body_def)

text \<open>
  C3. For an empty node set and any link list no simulation work is done, the simulation
  never runs, nothing is drawn and no error is raised. The guarded variant does so at its
  guard. The copying variants have no guard, under a comment that announces a safety check
  for empty data: rendered with no nodes and no links they create simulation 0, which runs
  with \<open>alpha = 1\<close>, and the first firing of its timer calls the tick callback; rendered with
  no nodes and link 0 the link force raises \<open>node not found\<close>. The same two renders on the
  guarded variant create no simulation and raise nothing.
\<close>

theorem empty_node_list_starts_simulation:
  "\<not> isl (run V2 example_place example_forces [Render [] [] False] example_init) \<and>
   running (sims (projr (run V2 example_place example_forces [Render [] [] False] example_init)) 0) \<and>
   alpha (sims (projr (run V2 example_place example_forces [Render [] [] False] example_init)) 0) = 1 \<and>
   tick_log (projr (run V2 example_place example_forces [Render [] [] False, TimerFire 0] example_init)) = [0] \<and>
   run V2 example_place example_forces [Render [] [Caller 0] False] example_init = Inl (NodeNotFound ''a'') \<and>
   running (sims (projr (run V3 example_place example_forces [Render [] [] False] example_init)) 0) \<and>
   tick_log (projr (run V3 example_place example_forces [Render [] [] False, TimerFire 0] example_init)) = [0] \<and>
   run V3 example_place example_forces [Render [] [Caller 0] False] example_init = Inl (NodeNotFound ''a'') \<and>
   next_sim (projr (run V1 example_place example_forces [Render [] [] False, TimerFire 0] example_init)) = 0 \<and>
   tick_log (projr (run V1 example_place example_forces [Render [] [] False, TimerFire 0] example_init)) = [] \<and>
   \<not> isl (run V1 example_place example_forces [Render [] [Caller 0] False, TimerFire 0] example_init) \<and>
   next_sim (projr (run V1 example_place example_forces [Render [] [Caller 0] False, TimerFire 0] example_init)) = 0"
  by (simp add: example_defs effect_defs simulation_step_def simulation_tick_def apply_forces_def
      link_ends_def tick_callback_def idle_simulation_def)

section \<open>Simulation parameters\<close>

lemma alphaDecay_default_bounds: "1 / 300 \<le> alphaDecay_default \<and> alphaDecay_default < 1"
proof -
  let ?r = "(0.001::real) powr (1 / 300)"
  have pos: "0 < ?r" by simp
  have "(1 + real 100 * (- (1 / 300))) \<le> (1 + (- (1 / 300))) ^ 100"
    by (rule Bernoulli_inequality) simp
  then have b: "(2 / 3 :: real) \<le> (299 / 300) ^ 100" by simp
  have "(2 / 3 :: real) ^ 3 \<le> ((299 / 300) ^ 100) ^ 3"
    by (rule power_mono [OF b]) simp
  then have c: "(8 / 27 :: real) \<le> (299 / 300) ^ 300"
    by (simp add: power_mult [symmetric] power3_eq_cube)
  have e: "?r ^ 300 = (0.001::real)"
  proof -
    have "?r ^ 300 = (0.001::real) powr ((1 / 300) * real (300::nat))"
      by (simp only: powr_powr powr_realpow [OF pos, symmetric])
    then show ?thesis by simp
  qed
  note e
  also have "(0.001::real) \<le> 8 / 27" by simp
  also note c
  finally have le: "?r ^ 300 \<le> (299 / 300 :: real) ^ 300" .
  have "?r \<le> 299 / 300" using le by simp
  then show ?thesis using pos by (simp add: alphaDecay_default_def)
qed


section \<open>What a tick, a timer step and the mouse handlers change\<close>

lemma integrate_nodes_other: "a \<notin> set as \<Longrightarrow> integrate_nodes vd as h a = h a"
  by (induction as arbitrary: h) simp_all

lemma integrate_nodes_distinct:
  "distinct as \<Longrightarrow> a \<in> set as \<Longrightarrow> integrate_nodes vd as h a = integrate_node vd (h a)"
  by (induction as arbitrary: h) (auto simp: integrate_nodes_other)

lemma integrate_nodes_pres:
  "(\<And>d. f (integrate_node vd d) = f d) \<Longrightarrow> f (integrate_nodes vd as h a) = f (h a)"
  by (induction as arbitrary: h) simp_all

lemma integrate_node_pres:
  "dev (integrate_node vd d) = dev d" "n_fx (integrate_node vd d) = n_fx d"
  "n_fy (integrate_node vd d) = n_fy d" "n_index (integrate_node vd d) = n_index d"
  by (simp_all add: integrate_node_def Let_def)

lemma set_kin_pres:
  "dev (set_kin k d) = dev d" "n_fx (set_kin k d) = n_fx d"
  "n_fy (set_kin k d) = n_fy d" "n_index (set_kin k d) = n_index d"
  by (simp_all add: set_kin_def split: prod.splits)

lemma simulation_tick_sims:
  "sims (simulation_tick F i s) = (sims s)(i := (sims s i)\<lparr>alpha := tick_alpha (sims s i)\<rparr>)"
  by (simp add: simulation_tick_def apply_forces_def tick_alpha_def Let_def)

lemma simulation_tick_frame:
  "link_heap (simulation_tick F i s) = link_heap s"
  "next_node (simulation_tick F i s) = next_node s"
  "next_link (simulation_tick F i s) = next_link s"
  "svgRef_current (simulation_tick F i s) = svgRef_current s"
  "wrapperRef_current (simulation_tick F i s) = wrapperRef_current s"
  "unmounted (simulation_tick F i s) = unmounted s"
  "next_sim (simulation_tick F i s) = next_sim s"
  "cleanup (simulation_tick F i s) = cleanup s"
  "dom_lines (simulation_tick F i s) = dom_lines s"
  "dom_nodes (simulation_tick F i s) = dom_nodes s"
  "drag_gesture (simulation_tick F i s) = drag_gesture s"
  "tick_log (simulation_tick F i s) = tick_log s"
  "selected (simulation_tick F i s) = selected s"
  by (simp_all add: simulation_tick_def apply_forces_def Let_def)

lemma simulation_tick_heap_other:
  "a \<notin> touched s i \<Longrightarrow> node_heap (simulation_tick F i s) a = node_heap s a"
  by (simp add: simulation_tick_def apply_forces_def Let_def touched_def integrate_nodes_other)

lemma simulation_tick_heap_pres:
  "dev (node_heap (simulation_tick F i s) a) = dev (node_heap s a)"
  "n_fx (node_heap (simulation_tick F i s) a) = n_fx (node_heap s a)"
  "n_fy (node_heap (simulation_tick F i s) a) = n_fy (node_heap s a)"
  "n_index (node_heap (simulation_tick F i s) a) = n_index (node_heap s a)"
  by (simp_all add: simulation_tick_def apply_forces_def Let_def
      integrate_nodes_pres integrate_node_pres set_kin_pres)

lemma simulation_tick_node:
  assumes "distinct (sim_nodes (sims s i))" "n \<in> set (sim_nodes (sims s i))"
  shows "node_heap (simulation_tick F i s) n =
    integrate_node (velocityDecay (sims s i))
      (set_kin (F (tick_alpha (sims s i)) (node_heap s) (link_heap s)
                  (sim_nodes (sims s i)) (sim_links (sims s i)) n) (node_heap s n))"
  using assms
  by (simp add: simulation_tick_def apply_forces_def Let_def integrate_nodes_distinct tick_alpha_def)

lemma tick_callback_fields:
  "node_heap (tick_callback i s) = node_heap s"
  "link_heap (tick_callback i s) = link_heap s"
  "next_node (tick_callback i s) = next_node s"
  "next_link (tick_callback i s) = next_link s"
  "svgRef_current (tick_callback i s) = svgRef_current s"
  "wrapperRef_current (tick_callback i s) = wrapperRef_current s"
  "unmounted (tick_callback i s) = unmounted s"
  "sims (tick_callback i s) = sims s"
  "next_sim (tick_callback i s) = next_sim s"
  "cleanup (tick_callback i s) = cleanup s"
  "drag_gesture (tick_callback i s) = drag_gesture s"
  "tick_log (tick_callback i s) = tick_log s @ [i]"
  "selected (tick_callback i s) = selected s"
  "map el_key (dom_nodes (tick_callback i s)) = map el_key (dom_nodes s)"
  "map line_key (dom_lines (tick_callback i s)) = map line_key (dom_lines s)"
  by (simp_all add: tick_callback_def el_key_def line_key_def tick_node_def tick_line_def Let_def)

lemma simulation_step_sims:
  "sims (simulation_step F i s) =
    (sims s)(i := (sims s i)\<lparr> alpha := tick_alpha (sims s i),
        running := (running (sims s i) \<and> \<not> tick_alpha (sims s i) < alphaMin (sims s i)) \<rparr>)"
  by (auto simp: simulation_step_def Let_def simulation_tick_sims tick_callback_fields simulation_stop_def)

lemma simulation_step_frame:
  "link_heap (simulation_step F i s) = link_heap s"
  "next_node (simulation_step F i s) = next_node s"
  "next_link (simulation_step F i s) = next_link s"
  "svgRef_current (simulation_step F i s) = svgRef_current s"
  "wrapperRef_current (simulation_step F i s) = wrapperRef_current s"
  "unmounted (simulation_step F i s) = unmounted s"
  "next_sim (simulation_step F i s) = next_sim s"
  "cleanup (simulation_step F i s) = cleanup s"
  "drag_gesture (simulation_step F i s) = drag_gesture s"
  "selected (simulation_step F i s) = selected s"
  "node_heap (simulation_step F i s) = node_heap (simulation_tick F i s)"
  "map el_key (dom_nodes (simulation_step F i s)) = map el_key (dom_nodes s)"
  "map line_key (dom_lines (simulation_step F i s)) = map line_key (dom_lines s)"
  "tick_log (simulation_step F i s) = (if on_tick (sims s i) then tick_log s @ [i] else tick_log s)"
  by (simp_all add: simulation_step_def Let_def simulation_tick_sims simulation_tick_frame
      tick_callback_fields simulation_stop_def)


lemma mousedowned_busy:
  "drag_gesture s \<noteq> None \<or> \<not> k < length (dom_nodes s) \<Longrightarrow> mousedowned k p s = s"
  by (auto simp: mousedowned_def)

lemma mousedowned_idle:
  assumes "drag_gesture s = None" "k < length (dom_nodes s)"
  shows "mousedowned k p s =
    s\<lparr> sims := (sims s)(el_sim (dom_nodes s ! k) :=
           (sims s (el_sim (dom_nodes s ! k)))\<lparr>alphaTarget := 0.3, running := True\<rparr>),
       node_heap := (node_heap s)(el_datum (dom_nodes s ! k) :=
           (node_heap s (el_datum (dom_nodes s ! k)))
             \<lparr> n_fx := n_x (node_heap s (el_datum (dom_nodes s ! k))),
               n_fy := n_y (node_heap s (el_datum (dom_nodes s ! k))) \<rparr>),
       drag_gesture := Some
         \<lparr> g_subject = el_datum (dom_nodes s ! k), g_sim = el_sim (dom_nodes s ! k),
           g_dx = drag_offset (n_x (node_heap s (el_datum (dom_nodes s ! k)))) (px p),
           g_dy = drag_offset (n_y (node_heap s (el_datum (dom_nodes s ! k)))) (py p),
           g_downx = clientX p, g_downy = clientY p, g_moving = False \<rparr> \<rparr>"
  using assms
  by (simp add: mousedowned_def dragstarted_def simulation_restart_def simulation_alphaTarget_def Let_def)

lemma mousemoved_idle: "drag_gesture s = None \<Longrightarrow> mousemoved p s = s"
  by (simp add: mousemoved_def)

lemma mousemoved_gesture:
  assumes "drag_gesture s = Some g"
  shows "mousemoved p s =
    s\<lparr> node_heap := (node_heap s)(g_subject g :=
           (node_heap s (g_subject g))\<lparr>n_fx := Some (px p + g_dx g), n_fy := Some (py p + g_dy g)\<rparr>),
       drag_gesture := Some (g\<lparr>g_moving :=
           (g_moving g \<or> clientX p \<noteq> g_downx g \<or> clientY p \<noteq> g_downy g)\<rparr>) \<rparr>"
  using assms
  by (simp add: mousemoved_def dragged_def Let_def sum_squares_gt_zero_iff)

lemma mouseupped_idle: "drag_gesture s = None \<Longrightarrow> mouseupped p s = s"
  by (simp add: mouseupped_def)

lemma mouseupped_gesture:
  assumes "drag_gesture s = Some g"
  shows "mouseupped p s =
    (if g_moving g then released g s
     else case List.find (\<lambda>e. el_datum e = g_subject g \<and> el_sim e = g_sim g) (dom_nodes s) of
            None \<Rightarrow> released g s
          | Some e \<Rightarrow> (case el_click e of
                        Some True \<Rightarrow> (released g s)\<lparr>selected := selected s @ [el_datum e]\<rparr>
                      | _ \<Rightarrow> released g s))"
  using assms
  by (auto simp: mouseupped_def dragended_def simulation_alphaTarget_def released_def node_click_def Let_def
      split: option.splits bool.splits)


section \<open>The effect's result and the well-formedness of reachable states\<close>

lemma list_all_is_caller: "list_all is_caller ns = (set ns \<subseteq> range Caller)"
proof -
  have "is_caller a = (a \<in> range Caller)" for a by (cases a) auto
  then show ?thesis by (auto simp: list_all_iff)
qed

lemma useEffect_body_guard:
  "\<not> svgRef_current s \<or> \<not> wrapperRef_current s \<or> (V = V1 \<and> ns = []) \<Longrightarrow>
   useEffect_body V P ns ls oc s = Inr (s\<lparr>cleanup := None\<rparr>)"
  by (auto simp: useEffect_body_def)

lemma useEffect_body_result:
  assumes r: "useEffect_body V P ns ls oc s = Inr s'"
      and g: "svgRef_current s" "wrapperRef_current s" "V = V1 \<longrightarrow> ns \<noteq> []"
      and a: "(sn, s1) = (if V = V1 then (ns, s) else copy_nodes ns s)"
      and b: "(sl, s2) = (if V = V1 then (ls, s1) else copy_links ls s1)"
  shows "\<exists>lh. forceLink_initialize (initializeNodes P sn 0 (node_heap s2)) sn sl 0 (link_heap s2) = Inr lh \<and>
     s' = s2\<lparr> node_heap := initializeNodes P sn 0 (node_heap s2), link_heap := lh,
              sims := (sims s2)(next_sim s2 := new_simulation sn sl),
              next_sim := Suc (next_sim s2), cleanup := Some (next_sim s2),
              dom_lines := map (\<lambda>l. \<lparr> line_datum = l, line_sim = next_sim s2,
                        line_stroke = link_stroke (lh l),
                        line_x1 = None, line_y1 = None, line_x2 = None, line_y2 = None \<rparr>) sl,
              dom_nodes := map (\<lambda>n. \<lparr> el_datum = n, el_sim = next_sim s2,
                        el_click = (if V = V1 then None else Some oc),
                        el_stroke = getStatusColor (DeviceStatus_str (status (dev (node_heap s2 n)))),
                        el_shape = node_shape V (initializeNodes P sn 0 (node_heap s2) n),
                        el_transform = None \<rparr>) sn \<rparr>"
proof -
  note eq = effect_after_guard [OF g a b, of P oc]
  let ?s3 = "s2\<lparr>dom_lines := [], dom_nodes := []\<rparr>"
  obtain s5 where f: "force_link (next_sim s2) sl (forceSimulation P sn ?s3) = Inr s5"
    using r eq by (cases "force_link (next_sim s2) sl (forceSimulation P sn ?s3)") simp_all
  then obtain lh where
    lh: "forceLink_initialize (initializeNodes P sn 0 (node_heap s2)) sn sl 0 (link_heap s2) = Inr lh"
    and s5: "s5 = (forceSimulation P sn ?s3)\<lparr> link_heap := lh,
        sims := (sims (forceSimulation P sn ?s3))(next_sim s2 :=
            (sims (forceSimulation P sn ?s3) (next_sim s2))\<lparr>sim_links := sl\<rparr>) \<rparr>"
    by (auto simp: force_link_def forceSimulation_def split: sum.splits)
  have "s' = (simulation_on_tick (next_sim s2)
          (s5\<lparr>dom_lines := map (draw_line (next_sim s2) s5) sl,
               dom_nodes := map (draw_node V (next_sim s2) oc (s5\<lparr>dom_lines := map (draw_line (next_sim s2) s5) sl\<rparr>)) sn\<rparr>))
          \<lparr>cleanup := Some (next_sim s2)\<rparr>"
    using r eq f by simp
  then have "s' = s2\<lparr> node_heap := initializeNodes P sn 0 (node_heap s2), link_heap := lh,
              sims := (sims s2)(next_sim s2 := new_simulation sn sl),
              next_sim := Suc (next_sim s2), cleanup := Some (next_sim s2),
              dom_lines := map (\<lambda>l. \<lparr> line_datum = l, line_sim = next_sim s2,
                        line_stroke = link_stroke (lh l),
                        line_x1 = None, line_y1 = None, line_x2 = None, line_y2 = None \<rparr>) sl,
              dom_nodes := map (\<lambda>n. \<lparr> el_datum = n, el_sim = next_sim s2,
                        el_click = (if V = V1 then None else Some oc),
                        el_stroke = getStatusColor (DeviceStatus_str (status (dev (node_heap s2 n)))),
                        el_shape = node_shape V (initializeNodes P sn 0 (node_heap s2) n),
                        el_transform = None \<rparr>) sn \<rparr>"
    unfolding s5
    by (simp add: forceSimulation_def simulation_on_tick_def new_simulation_def draw_line_def
        draw_node_def initializeNodes_dev fun_eq_iff)
  then show ?thesis using lh by blast
qed



lemma tick_alpha_nonneg: "sim_params_ok sm \<Longrightarrow> 0 \<le> tick_alpha sm"
proof -
  assume ok: "sim_params_ok sm"
  let ?d = alphaDecay_default
  have d: "0 < ?d" "?d < 1" using alphaDecay_default_bounds by simp_all
  have a: "0 \<le> alpha sm" and t: "0 \<le> alphaTarget sm" and dd: "alphaDecay sm = ?d"
    using ok by (auto simp: sim_params_ok_def)
  have "tick_alpha sm = alpha sm * (1 - ?d) + alphaTarget sm * ?d"
    by (simp add: tick_alpha_def dd algebra_simps)
  moreover have "0 \<le> alpha sm * (1 - ?d)" using a d by simp
  moreover have "0 \<le> alphaTarget sm * ?d" using t d by simp
  ultimately show ?thesis by simp
qed

lemma sim_params_ok_running: "sim_params_ok (sm\<lparr>running := b\<rparr>) = sim_params_ok sm"
  by (simp add: sim_params_ok_def)

lemma sim_params_ok_target:
  "sim_params_ok sm \<Longrightarrow> t = 0 \<or> t = 0.3 \<Longrightarrow> sim_params_ok (sm\<lparr>alphaTarget := t\<rparr>)"
  by (auto simp: sim_params_ok_def)

lemma sim_params_ok_tick: "sim_params_ok sm \<Longrightarrow> sim_params_ok (sm\<lparr>alpha := tick_alpha sm\<rparr>)"
  using tick_alpha_nonneg [of sm] by (simp add: sim_params_ok_def)

lemma sim_params_ok_new: "sim_params_ok (new_simulation sn sl)"
  by (simp add: sim_params_ok_def new_simulation_def)

lemma sim_params_ok_idle: "sim_params_ok idle_simulation"
  by (simp add: sim_params_ok_def idle_simulation_def)

lemma render_unfold:
  "render V P ns ls oc s = (if unmounted s then Inr s else useEffect_body V P ns ls oc (before_effect s))"
  by (simp add: render_def before_effect_def Let_def split: option.splits)

lemma before_effect_fields:
  "svgRef_current (before_effect s)" "wrapperRef_current (before_effect s)"
  "node_heap (before_effect s) = node_heap s" "link_heap (before_effect s) = link_heap s"
  "next_node (before_effect s) = next_node s" "next_link (before_effect s) = next_link s"
  "unmounted (before_effect s) = unmounted s" "next_sim (before_effect s) = next_sim s"
  "cleanup (before_effect s) = cleanup s" "dom_lines (before_effect s) = dom_lines s"
  "dom_nodes (before_effect s) = dom_nodes s" "drag_gesture (before_effect s) = drag_gesture s"
  "tick_log (before_effect s) = tick_log s" "selected (before_effect s) = selected s"
  "sims (before_effect s) j =
     (if cleanup s = Some j then (sims s j)\<lparr>running := False\<rparr> else sims s j)"
  by (auto simp: before_effect_def simulation_stop_def split: option.splits)

lemma wf_state_cong:
  assumes "wf_state s" "\<And>j. sim_params_ok (sims s' j)"
      and "\<And>j. sim_nodes (sims s' j) = sim_nodes (sims s j)"
      and "map el_key (dom_nodes s') = map el_key (dom_nodes s)"
  shows "wf_state s'"
  using assms unfolding wf_state_def by simp

lemma wf_state_params: "wf_state s \<Longrightarrow> sim_params_ok (sims s j)"
  by (simp add: wf_state_def)

lemma wf_state_before_effect: "wf_state s \<Longrightarrow> wf_state (before_effect s)"
proof (rule wf_state_cong)
  assume wf: "wf_state s"
  show "wf_state s" by (rule wf)
  show "sim_params_ok (sims (before_effect s) j)" for j
    using wf_state_params [OF wf, of j] by (simp add: before_effect_fields sim_params_ok_running)
  show "sim_nodes (sims (before_effect s) j) = sim_nodes (sims s j)" for j
    by (simp add: before_effect_fields)
  show "map el_key (dom_nodes (before_effect s)) = map el_key (dom_nodes s)"
    by (simp add: before_effect_fields)
qed

lemma effect_arrays:
  assumes "distinct ns" "set ns \<subseteq> range Caller"
      and a: "(sn, s1) = (if V = V1 then (ns, s) else copy_nodes ns s)"
  shows "distinct sn"
proof (cases "V = V1")
  case True
  then show ?thesis using assms by simp
next
  case False
  then have "copy_nodes ns s = (sn, s1)" using a by simp
  from copy_nodes_spec [OF assms(2) this]
  have "sn = map Copy [next_node s ..< next_node s + length ns]" by blast
  then show ?thesis by (simp add: distinct_map inj_on_def)
qed

lemma effect_sims:
  assumes a: "(sn, s1) = (if V = V1 then (ns, s) else copy_nodes ns s)"
      and b: "(sl, s2) = (if V = V1 then (ls, s1) else copy_links ls s1)"
  shows "sims s2 = sims s \<and> next_sim s2 = next_sim s"
proof (cases "V = V1")
  case True
  then show ?thesis using a b by simp
next
  case False
  then have c: "copy_nodes ns s = (sn, s1)" "copy_links ls s1 = (sl, s2)" using a b by simp_all
  show ?thesis using copy_nodes_fields [OF c(1)] copy_links_fields [OF c(2)] by simp
qed


lemma wf_state_effect:
  assumes wf: "wf_state s" and r: "useEffect_body V P ns ls oc s = Inr s'"
      and d: "distinct ns" "set ns \<subseteq> range Caller"
  shows "wf_state s'"
proof (cases "\<not> svgRef_current s \<or> \<not> wrapperRef_current s \<or> (V = V1 \<and> ns = [])")
  case True
  then have "s' = s\<lparr>cleanup := None\<rparr>" using r useEffect_body_guard [OF True, of P ls oc] by simp
  then show ?thesis using wf by (simp add: wf_state_def)
next
  case False
  then have g: "svgRef_current s" "wrapperRef_current s" "V = V1 \<longrightarrow> ns \<noteq> []" by auto
  obtain sn s1 where a: "(sn, s1) = (if V = V1 then (ns, s) else copy_nodes ns s)"
    by (metis surj_pair)
  obtain sl s2 where b: "(sl, s2) = (if V = V1 then (ls, s1) else copy_links ls s1)"
    by (metis surj_pair)
  from useEffect_body_result [OF r g a b] obtain lh where
    s': "s' = s2\<lparr> node_heap := initializeNodes P sn 0 (node_heap s2), link_heap := lh,
              sims := (sims s2)(next_sim s2 := new_simulation sn sl),
              next_sim := Suc (next_sim s2), cleanup := Some (next_sim s2),
              dom_lines := map (\<lambda>l. \<lparr> line_datum = l, line_sim = next_sim s2,
                        line_stroke = link_stroke (lh l),
                        line_x1 = None, line_y1 = None, line_x2 = None, line_y2 = None \<rparr>) sl,
              dom_nodes := map (\<lambda>n. \<lparr> el_datum = n, el_sim = next_sim s2,
                        el_click = (if V = V1 then None else Some oc),
                        el_stroke = getStatusColor (DeviceStatus_str (status (dev (node_heap s2 n)))),
                        el_shape = node_shape V (initializeNodes P sn 0 (node_heap s2) n),
                        el_transform = None \<rparr>) sn \<rparr>"
    by blast
  have sm: "sims s' = (sims s)(next_sim s := new_simulation sn sl)"
    using s' effect_sims [OF a b] by simp
  have dn: "map el_key (dom_nodes s') = map (\<lambda>n. (n, next_sim s, if V = V1 then None else Some oc)) sn"
    using s' effect_sims [OF a b] by (simp add: el_key_def)
  have ds: "distinct sn" using effect_arrays [OF d a] .
  have 1: "\<forall>j. sim_params_ok (sims s' j)"
    using wf by (simp add: sm wf_state_def sim_params_ok_new)
  have 2: "\<forall>j. distinct (sim_nodes (sims s' j))"
    using wf ds by (simp add: sm wf_state_def new_simulation_def)
  have 3: "dom_ok (\<lambda>j. sim_nodes (sims s' j)) (map el_key (dom_nodes s'))"
    unfolding dn sm dom_ok_def by (auto simp: new_simulation_def)
  show ?thesis unfolding wf_state_def using 1 2 3 by blast
qed

lemma wf_state_render:
  assumes "caller_props (Render ns ls oc)" "wf_state s" "render V P ns ls oc s = Inr s'"
  shows "wf_state s'"
proof (cases "unmounted s")
  case True
  then show ?thesis using assms by (simp add: render_unfold)
next
  case False
  then have "useEffect_body V P ns ls oc (before_effect s) = Inr s'"
    using assms(3) by (simp add: render_unfold)
  moreover have "distinct ns" "set ns \<subseteq> range Caller"
    using assms(1) by (simp_all add: list_all_is_caller)
  ultimately show ?thesis using wf_state_effect wf_state_before_effect [OF assms(2)] by blast
qed

lemma wf_state_unmount: "wf_state s \<Longrightarrow> wf_state (unmount s)"
proof (cases "unmounted s")
  case True
  then show "wf_state s \<Longrightarrow> wf_state (unmount s)" by (simp add: unmount_def)
next
  case False
  assume wf: "wf_state s"
  have p: "sim_params_ok (sims (unmount s) j)" for j
    using wf_state_params [OF wf, of j] False
    by (simp add: unmount_def simulation_stop_def sim_params_ok_running Let_def split: option.splits)
  have n: "distinct (sim_nodes (sims (unmount s) j))" for j
    using wf False
    by (simp add: wf_state_def unmount_def simulation_stop_def Let_def split: option.splits)
  have d: "dom_nodes (unmount s) = []"
    using False by (simp add: unmount_def Let_def split: option.splits)
  show "wf_state (unmount s)" unfolding wf_state_def d using p n by (simp add: dom_ok_def)
qed

lemma wf_state_timer: "wf_state s \<Longrightarrow> wf_state (simulation_step F i s)"
proof (rule wf_state_cong)
  assume wf: "wf_state s"
  show "wf_state s" by (rule wf)
  show "sim_params_ok (sims (simulation_step F i s) j)" for j
    using wf_state_params [OF wf, of j] sim_params_ok_tick [OF wf_state_params [OF wf, of i]]
    by (simp add: simulation_step_sims sim_params_ok_running)
  show "sim_nodes (sims (simulation_step F i s) j) = sim_nodes (sims s j)" for j
    by (simp add: simulation_step_sims)
  show "map el_key (dom_nodes (simulation_step F i s)) = map el_key (dom_nodes s)"
    by (simp add: simulation_step_frame)
qed

lemma wf_state_mousedowned: "wf_state s \<Longrightarrow> wf_state (mousedowned k p s)"
proof (cases "drag_gesture s = None \<and> k < length (dom_nodes s)")
  case False
  then show "wf_state s \<Longrightarrow> wf_state (mousedowned k p s)" by (simp add: mousedowned_busy)
next
  case True
  assume wf: "wf_state s"
  note eq = mousedowned_idle [of s k p]
  show "wf_state (mousedowned k p s)"
  proof (rule wf_state_cong [OF wf])
    show "sim_params_ok (sims (mousedowned k p s) j)" for j
      using wf_state_params [OF wf, of j] True
        sim_params_ok_target [OF wf_state_params [OF wf, of "el_sim (dom_nodes s ! k)"], of "0.3"]
      by (simp add: eq sim_params_ok_running)
    show "sim_nodes (sims (mousedowned k p s) j) = sim_nodes (sims s j)" for j
      using True by (simp add: eq)
    show "map el_key (dom_nodes (mousedowned k p s)) = map el_key (dom_nodes s)"
      using True by (simp add: eq)
  qed
qed

lemma wf_state_mousemoved: "wf_state s \<Longrightarrow> wf_state (mousemoved p s)"
proof (cases "drag_gesture s")
  case None
  then show "wf_state s \<Longrightarrow> wf_state (mousemoved p s)" by (simp add: mousemoved_idle)
next
  case (Some g)
  assume wf: "wf_state s"
  show "wf_state (mousemoved p s)"
    by (rule wf_state_cong [OF wf]) (simp_all add: mousemoved_gesture [OF Some] wf_state_params [OF wf])
qed

lemma wf_state_released: "wf_state s \<Longrightarrow> wf_state (released g s)"
proof -
  assume wf: "wf_state s"
  show "wf_state (released g s)"
  proof (rule wf_state_cong [OF wf])
    show "sim_params_ok (sims (released g s) j)" for j
      using wf_state_params [OF wf, of j]
        sim_params_ok_target [OF wf_state_params [OF wf, of "g_sim g"], of 0]
      by (simp add: released_def)
    show "sim_nodes (sims (released g s) j) = sim_nodes (sims s j)" for j
      by (simp add: released_def)
    show "map el_key (dom_nodes (released g s)) = map el_key (dom_nodes s)"
      by (simp add: released_def)
  qed
qed

lemma wf_state_selected: "wf_state (s\<lparr>selected := y\<rparr>) = wf_state s"
  by (simp add: wf_state_def)

lemma wf_state_mouseupped: "wf_state s \<Longrightarrow> wf_state (mouseupped p s)"
proof (cases "drag_gesture s")
  case None
  then show "wf_state s \<Longrightarrow> wf_state (mouseupped p s)" by (simp add: mouseupped_idle)
next
  case (Some g)
  assume "wf_state s"
  then have "wf_state (released g s)" by (rule wf_state_released)
  then show "wf_state (mouseupped p s)"
    unfolding mouseupped_gesture [OF Some]
    by (simp add: wf_state_selected split: option.splits bool.splits)
qed

lemma wf_state_step:
  assumes "caller_props e" "wf_state s" "step V P F e s = Inr s'"
  shows "wf_state s'"
proof (cases e)
  case (Render ns ls oc)
  then show ?thesis using assms wf_state_render by simp
next
  case Unmount
  then show ?thesis using assms wf_state_unmount by auto
next
  case (TimerFire i)
  then show ?thesis using assms wf_state_timer by (auto split: if_splits)
next
  case (PointerDown k p)
  then show ?thesis using assms wf_state_mousedowned by auto
next
  case (PointerMove p)
  then show ?thesis using assms wf_state_mousemoved by auto
next
  case (PointerUp p)
  then show ?thesis using assms wf_state_mouseupped by auto
qed

lemma run_invariant:
  assumes stp: "\<And>e s s'. Q e \<Longrightarrow> I s \<Longrightarrow> step V P F e s = Inr s' \<Longrightarrow> I s'"
  shows "\<forall>e \<in> set es. Q e \<Longrightarrow> I s \<Longrightarrow> run V P F es s = Inr s' \<Longrightarrow> I s'"
proof (induction es arbitrary: s)
  case Nil
  then show ?case by simp
next
  case (Cons e es)
  from Cons.prems(3) obtain s1 where 1: "step V P F e s = Inr s1" and 2: "run V P F es s1 = Inr s'"
    by (cases "step V P F e s") simp_all
  have "I s1" using stp [OF _ Cons.prems(2) 1] Cons.prems(1) by simp
  then show ?case using Cons.IH [OF _ _ 2] Cons.prems(1) by simp
qed


lemma wf_state_init: "wf_state (init_state hn hl)"
proof -
  have "sim_nodes idle_simulation = []" by (simp add: idle_simulation_def)
  then show ?thesis by (simp add: wf_state_def init_state_def sim_params_ok_idle dom_ok_def)
qed

lemma wf_state_run:
  "\<forall>e \<in> set es. caller_props e \<Longrightarrow> wf_state s \<Longrightarrow> run V P F es s = Inr s' \<Longrightarrow> wf_state s'"
  by (rule run_invariant [where Q = caller_props and I = wf_state]) (rule wf_state_step)


section \<open>Drag and click on a node\<close>

lemma same_view_refl: "same_view s s"
  by (simp add: same_view_def)

lemma same_view_trans: "same_view s s1 \<Longrightarrow> same_view s1 s2 \<Longrightarrow> same_view s s2"
  by (simp add: same_view_def)

lemma tick_alpha_reheated:
  assumes ok: "sim_params_ok sm" and t: "alphaTarget sm = 0.3"
  shows "alphaMin sm \<le> tick_alpha sm"
proof -
  let ?d = alphaDecay_default
  have d: "1 / 300 \<le> ?d" "?d < 1" using alphaDecay_default_bounds by simp_all
  have a: "0 \<le> alpha sm" and dd: "alphaDecay sm = ?d" and m: "alphaMin sm = 0.001"
    using ok by (auto simp: sim_params_ok_def)
  have "tick_alpha sm = alpha sm * (1 - ?d) + 0.3 * ?d"
    by (simp add: tick_alpha_def dd t algebra_simps)
  moreover have "0 \<le> alpha sm * (1 - ?d)" using a d by simp
  moreover have "0.001 \<le> 0.3 * ?d" using d by simp
  ultimately show ?thesis using m by simp
qed

lemma in_gesture_start:
  assumes "drag_gesture s = None" "k < length (dom_nodes s)"
  shows "in_gesture (el_datum (dom_nodes s ! k)) (el_sim (dom_nodes s ! k))
           (drag_offset (n_x (node_heap s (el_datum (dom_nodes s ! k)))) (px p))
           (drag_offset (n_y (node_heap s (el_datum (dom_nodes s ! k)))) (py p))
           p False (mousedowned k p s)"
  by (simp add: mousedowned_idle [OF assms] in_gesture_def)


lemma in_gesture_move:
  assumes "in_gesture n i dx dy p mv s"
  shows "in_gesture n i dx dy p (mv \<or> moved_from p (PointerMove q)) (mousemoved q s)"
proof -
  let ?g = "\<lparr> g_subject = n, g_sim = i, g_dx = dx, g_dy = dy,
        g_downx = clientX p, g_downy = clientY p, g_moving = mv \<rparr>"
  have g: "drag_gesture s = Some ?g" using assms by (simp add: in_gesture_def)
  show ?thesis using assms by (simp add: mousemoved_gesture [OF g] in_gesture_def)
qed

lemma same_view_move: "same_view s (mousemoved q s)"
proof (cases "drag_gesture s")
  case None
  then show ?thesis by (simp add: mousemoved_idle same_view_refl)
next
  case (Some g)
  then show ?thesis by (simp add: mousemoved_gesture same_view_def)
qed

lemma in_gesture_timer:
  assumes wf: "wf_state s" and g: "in_gesture n i dx dy p mv s"
  shows "in_gesture n i dx dy p mv (simulation_step F j s)"
proof -
  have "alphaMin (sims s i) \<le> tick_alpha (sims s i)"
    using tick_alpha_reheated [OF wf_state_params [OF wf]] g by (simp add: in_gesture_def)
  then show ?thesis using g
    by (auto simp: in_gesture_def simulation_step_sims simulation_step_frame)
qed

lemma same_view_timer: "same_view s (simulation_step F j s)"
  by (simp add: same_view_def simulation_step_frame simulation_step_sims simulation_tick_heap_pres)

lemma gesture_run:
  assumes "\<forall>e \<in> set mid. is_move_or_tick e"
  shows "wf_state s1 \<Longrightarrow> in_gesture n i dx dy p mv s1 \<Longrightarrow> run V P F mid s1 = Inr s2 \<Longrightarrow>
     in_gesture n i dx dy p (mv \<or> (\<exists>e \<in> set mid. moved_from p e)) s2 \<and> same_view s1 s2 \<and> wf_state s2"
  using assms
proof (induction mid arbitrary: s1 mv)
  case Nil
  then show ?case by (simp add: same_view_refl)
next
  case (Cons e mid)
  from Cons.prems(3) obtain s' where st: "step V P F e s1 = Inr s'" and rn: "run V P F mid s' = Inr s2"
    by (cases "step V P F e s1") simp_all
  have mt: "is_move_or_tick e" and rest: "\<forall>e \<in> set mid. is_move_or_tick e" using Cons.prems(4) by simp_all
  have one: "in_gesture n i dx dy p (mv \<or> moved_from p e) s' \<and> same_view s1 s' \<and> wf_state s'"
  proof (cases e)
    case (PointerMove q)
    then have s': "s' = mousemoved q s1" using st by simp
    show ?thesis unfolding s' PointerMove
      using in_gesture_move [OF Cons.prems(2)] same_view_move wf_state_mousemoved [OF Cons.prems(1)]
      by blast
  next
    case (TimerFire j)
    show ?thesis
    proof (cases "running (sims s1 j)")
      case True
      then have s': "s' = simulation_step F j s1" using st TimerFire by simp
      show ?thesis unfolding s' TimerFire
        using in_gesture_timer [OF Cons.prems(1,2)] same_view_timer wf_state_timer [OF Cons.prems(1)]
        by simp
    next
      case False
      then have "s' = s1" using st TimerFire by simp
      then show ?thesis using Cons.prems(1,2) TimerFire by (simp add: same_view_refl)
    qed
  qed (use mt in simp_all)
  from Cons.IH [OF _ _ rn rest, of "mv \<or> moved_from p e"] one
  have "in_gesture n i dx dy p ((mv \<or> moved_from p e) \<or> (\<exists>e \<in> set mid. moved_from p e)) s2 \<and>
        same_view s' s2 \<and> wf_state s2"
    by blast
  then show ?case using one same_view_trans [of s1 s' s2] by (simp add: disj_assoc)
qed


lemma mouseupped_fields:
  assumes "drag_gesture s = Some g"
  shows "node_heap (mouseupped r s) = node_heap (released g s)"
    and "sims (mouseupped r s) = sims (released g s)"
    and "link_heap (mouseupped r s) = link_heap s"
    and "dom_nodes (mouseupped r s) = dom_nodes s"
    and "drag_gesture (mouseupped r s) = None"
  unfolding mouseupped_gesture [OF assms]
  by (simp_all add: released_def split: option.splits bool.splits)

lemma integrate_free:
  assumes "n_fx d = None" "n_fy d = None"
  shows "n_x (integrate_node vd (set_kin k d)) = num_add (fst k) (num_scale (fst (snd (snd k))) vd)"
    and "n_y (integrate_node vd (set_kin k d)) = num_add (fst (snd k)) (num_scale (snd (snd (snd k))) vd)"
  using assms by (simp_all add: integrate_node_def set_kin_def Let_def split: prod.splits)

lemma dom_key_member:
  "k < length (dom_nodes s) \<Longrightarrow> el_key (dom_nodes s ! k) \<in> set (map el_key (dom_nodes s))"
  by simp

lemma wf_state_subject:
  assumes "wf_state s" "k < length (dom_nodes s)"
  shows "el_datum (dom_nodes s ! k) \<in> set (sim_nodes (sims s (el_sim (dom_nodes s ! k))))"
proof -
  have "dom_ok (\<lambda>j. sim_nodes (sims s j)) (map el_key (dom_nodes s))"
    using assms(1) by (simp add: wf_state_def)
  then have "fst (el_key (dom_nodes s ! k)) \<in> set (sim_nodes (sims s (fst (snd (el_key (dom_nodes s ! k))))))"
    using dom_key_member [OF assms(2)] unfolding dom_ok_def by blast
  then show ?thesis by (simp add: el_key_def)
qed

text \<open>
  C4, as amended. For every node element of a view reached from the initial state, starting
  a drag on it sets its simulation's alpha target to 0.3 and restarts the timer, and pins
  the node at its own current position, not at the pointer. Each later pointer move, with
  any moves and ticks before it, sets the pin to the pointer position plus the offset
  between node and pointer at mouse-down. Releasing clears the pin and sets the alpha target
  to 0 while the timer still runs; the next tick then gives the node the position the forces
  and its velocity give it, as for a free node. The handlers write no other node object.
\<close>

theorem drag_pins_and_releases_node:
  assumes props: "\<forall>e \<in> set es0. caller_props e"
      and reach: "run V P F es0 (init_state hn hl) = Inr s"
      and idle: "drag_gesture s = None" and k: "k < length (dom_nodes s)"
      and mid: "\<forall>e \<in> set mid. is_move_or_tick e"
      and run_mid: "run V P F (PointerDown k p # mid) s = Inr s2"
  shows "let n = el_datum (dom_nodes s ! k); i = el_sim (dom_nodes s ! k);
             s1 = mousedowned k p s; sm = mousemoved q s2; s3 = mouseupped r s2;
             s4 = simulation_step F i s3;
             kin = F (tick_alpha (sims s3 i)) (node_heap s3) (link_heap s3)
                     (sim_nodes (sims s3 i)) (sim_links (sims s3 i)) n
         in (alphaTarget (sims s1 i) = 0.3 \<and> running (sims s1 i) \<and>
             n_fx (node_heap s1 n) = n_x (node_heap s n) \<and> n_fy (node_heap s1 n) = n_y (node_heap s n)) \<and>
            (n_fx (node_heap sm n) = Some (px q + drag_offset (n_x (node_heap s n)) (px p)) \<and>
             n_fy (node_heap sm n) = Some (py q + drag_offset (n_y (node_heap s n)) (py p))) \<and>
            (n_fx (node_heap s3 n) = None \<and> n_fy (node_heap s3 n) = None \<and>
             alphaTarget (sims s3 i) = 0 \<and> running (sims s3 i)) \<and>
            (n_x (node_heap s4 n) = num_add (fst kin) (num_scale (fst (snd (snd kin))) (velocityDecay (sims s3 i))) \<and>
             n_y (node_heap s4 n) = num_add (fst (snd kin)) (num_scale (snd (snd (snd kin))) (velocityDecay (sims s3 i)))) \<and>
            (\<forall>a. a \<noteq> n \<longrightarrow> node_heap s1 a = node_heap s a \<and> node_heap sm a = node_heap s2 a \<and>
                            node_heap s3 a = node_heap s2 a)"
proof -
  define n where "n = el_datum (dom_nodes s ! k)"
  define i where "i = el_sim (dom_nodes s ! k)"
  define dx where "dx = drag_offset (n_x (node_heap s n)) (px p)"
  define dy where "dy = drag_offset (n_y (node_heap s n)) (py p)"
  define s1 where "s1 = mousedowned k p s"
  define s3 where "s3 = mouseupped r s2"
  have wf: "wf_state s" using wf_state_run [OF props wf_state_init reach] .
  have rn: "run V P F mid s1 = Inr s2" using run_mid by (simp add: s1_def)
  have wf1: "wf_state s1" unfolding s1_def by (rule wf_state_mousedowned [OF wf])
  have g1: "in_gesture n i dx dy p False s1"
    unfolding s1_def n_def i_def dx_def dy_def by (rule in_gesture_start [OF idle k])
  from gesture_run [OF mid wf1 g1 rn]
  have g2: "in_gesture n i dx dy p (\<exists>e \<in> set mid. moved_from p e) s2"
    and sv: "same_view s1 s2" and wf2: "wf_state s2" by simp_all
  let ?g = "\<lparr> g_subject = n, g_sim = i, g_dx = dx, g_dy = dy,
        g_downx = clientX p, g_downy = clientY p, g_moving = (\<exists>e \<in> set mid. moved_from p e) \<rparr>"
  have g: "drag_gesture s2 = Some ?g" using g2 by (simp add: in_gesture_def)
  have eq1: "s1 = s\<lparr> sims := (sims s)(i := (sims s i)\<lparr>alphaTarget := 0.3, running := True\<rparr>),
       node_heap := (node_heap s)(n := (node_heap s n)\<lparr> n_fx := n_x (node_heap s n), n_fy := n_y (node_heap s n) \<rparr>),
       drag_gesture := Some \<lparr> g_subject = n, g_sim = i, g_dx = dx, g_dy = dy,
           g_downx = clientX p, g_downy = clientY p, g_moving = False \<rparr> \<rparr>"
    unfolding s1_def n_def i_def dx_def dy_def by (rule mousedowned_idle [OF idle k])
  have A: "alphaTarget (sims s1 i) = 0.3 \<and> running (sims s1 i) \<and>
             n_fx (node_heap s1 n) = n_x (node_heap s n) \<and> n_fy (node_heap s1 n) = n_y (node_heap s n)"
    by (simp add: eq1)
  have B: "n_fx (node_heap (mousemoved q s2) n) = Some (px q + dx) \<and>
           n_fy (node_heap (mousemoved q s2) n) = Some (py q + dy)"
    by (simp add: mousemoved_gesture [OF g])
  note uf = mouseupped_fields [OF g, of r]
  have C: "n_fx (node_heap s3 n) = None \<and> n_fy (node_heap s3 n) = None \<and>
             alphaTarget (sims s3 i) = 0 \<and> running (sims s3 i)"
    using g2 unfolding s3_def uf by (simp add: released_def in_gesture_def)
  have wf3: "wf_state s3" unfolding s3_def by (rule wf_state_mouseupped [OF wf2])
  have nodes: "sim_nodes (sims s3 i) = sim_nodes (sims s i)"
  proof -
    have "sim_nodes (sims s3 i) = sim_nodes (sims s2 i)" unfolding s3_def uf by (simp add: released_def)
    also have "\<dots> = sim_nodes (sims s1 i)" using sv by (simp add: same_view_def)
    also have "\<dots> = sim_nodes (sims s i)" by (simp add: eq1)
    finally show ?thesis .
  qed
  have mem: "n \<in> set (sim_nodes (sims s3 i))"
    unfolding nodes unfolding n_def i_def by (rule wf_state_subject [OF wf k])
  have dis: "distinct (sim_nodes (sims s3 i))" using wf3 by (simp add: wf_state_def)
  have D: "n_x (node_heap (simulation_step F i s3) n) =
        num_add (fst (F (tick_alpha (sims s3 i)) (node_heap s3) (link_heap s3)
                     (sim_nodes (sims s3 i)) (sim_links (sims s3 i)) n))
          (num_scale (fst (snd (snd (F (tick_alpha (sims s3 i)) (node_heap s3) (link_heap s3)
                     (sim_nodes (sims s3 i)) (sim_links (sims s3 i)) n)))) (velocityDecay (sims s3 i))) \<and>
      n_y (node_heap (simulation_step F i s3) n) =
        num_add (fst (snd (F (tick_alpha (sims s3 i)) (node_heap s3) (link_heap s3)
                     (sim_nodes (sims s3 i)) (sim_links (sims s3 i)) n)))
          (num_scale (snd (snd (snd (F (tick_alpha (sims s3 i)) (node_heap s3) (link_heap s3)
                     (sim_nodes (sims s3 i)) (sim_links (sims s3 i)) n)))) (velocityDecay (sims s3 i)))"
    unfolding simulation_step_frame simulation_tick_node [OF dis mem]
    using C by (simp add: integrate_free)
  have E: "\<forall>a. a \<noteq> n \<longrightarrow> node_heap s1 a = node_heap s a \<and>
                 node_heap (mousemoved q s2) a = node_heap s2 a \<and> node_heap s3 a = node_heap s2 a"
    unfolding s3_def uf by (simp add: eq1 mousemoved_gesture [OF g] released_def)
  show ?thesis
    using A B C D E
    unfolding Let_def n_def [symmetric] i_def [symmetric] s1_def [symmetric] s3_def [symmetric]
      dx_def [symmetric] dy_def [symmetric]
    by blast
qed




lemmas mouse_defs = mousedowned_def mousemoved_def mouseupped_def dragstarted_def dragged_def
  dragended_def node_click_def drag_offset_def simulation_restart_def simulation_alphaTarget_def

lemma example_view_eval:
  "run V2 example_place example_forces example_renders example_init = Inr example_view"
  by (simp add: example_view_def example_renders_def example_defs effect_defs)

lemma example_view_dom:
  "map el_key (dom_nodes example_view) = [(Copy 0, 0, Some True), (Copy 1, 0, Some True)]"
  "drag_gesture example_view = None"
  "n_x (node_heap example_view (Copy 1)) = Some 100"
  "n_y (node_heap example_view (Copy 1)) = Some 0"
  by (simp_all add: example_view_def example_renders_def example_defs effect_defs el_key_def)

lemma example_dragged_eval:
  "run V2 example_place example_forces (PointerDown 1 example_p # [PointerMove example_q]) example_view
     = Inr example_dragged"
  by (simp add: example_dragged_def)

text \<open>The drag theorem at the example view: node \<open>b\<close> pressed at (103, 4), moved to (113, 4).\<close>

theorem drag_pins_and_releases_node_witness:
  "list_all caller_props example_renders \<and>
   run V2 example_place example_forces example_renders example_init = Inr example_view \<and>
   drag_gesture example_view = None \<and> 1 < length (dom_nodes example_view) \<and>
   list_all is_move_or_tick [PointerMove example_q] \<and>
   run V2 example_place example_forces (PointerDown 1 example_p # [PointerMove example_q]) example_view
     = Inr example_dragged \<and>
   el_datum (dom_nodes example_view ! 1) = Copy 1 \<and>
   n_fx (node_heap (mousedowned 1 example_p example_view) (Copy 1)) = Some 100 \<and>
   n_fx (node_heap (mousemoved example_q example_dragged) (Copy 1)) = Some 110 \<and>
   n_fx (node_heap (mouseupped example_q example_dragged) (Copy 1)) = None \<and>
   running (sims (mouseupped example_q example_dragged) 0)"
proof -
  have h1: "\<forall>e \<in> set example_renders. caller_props e" by (simp add: example_renders_def)
  have h2: "run V2 example_place example_forces example_renders (init_state example_node_heap example_link_heap)
     = Inr example_view"
    using example_view_eval by (simp add: example_init_def)
  have h3: "drag_gesture example_view = None" by (rule example_view_dom)
  have len: "length (map el_key (dom_nodes example_view)) = 2" by (simp add: example_view_dom)
  then have h4: "1 < length (dom_nodes example_view)" by simp
  have h5: "\<forall>e \<in> set [PointerMove example_q]. is_move_or_tick e" by simp
  note h6 = example_dragged_eval
  have "el_key (dom_nodes example_view ! 1) = map el_key (dom_nodes example_view) ! 1"
    using h4 by simp
  then have d: "el_datum (dom_nodes example_view ! 1) = Copy 1" "el_sim (dom_nodes example_view ! 1) = 0"
    by (simp_all add: example_view_dom el_key_def)
  note T = drag_pins_and_releases_node [OF h1 h2 h3 h4 h5 h6, of example_q example_q, unfolded Let_def d]
  from T have t1: "n_fx (node_heap (mousedowned 1 example_p example_view) (Copy 1)) =
      n_x (node_heap example_view (Copy 1))" by blast
  from T have t2: "n_fx (node_heap (mousemoved example_q example_dragged) (Copy 1)) =
      Some (px example_q + drag_offset (n_x (node_heap example_view (Copy 1))) (px example_p))" by blast
  from T have t3: "n_fx (node_heap (mouseupped example_q example_dragged) (Copy 1)) = None"
      "running (sims (mouseupped example_q example_dragged) 0)" by blast+
  have c: "px example_q + drag_offset (Some 100) (px example_p) = 110"
    by (simp add: drag_offset_def example_p_def example_q_def)
  have t1': "n_fx (node_heap (mousedowned 1 example_p example_view) (Copy 1)) = Some 100"
    using t1 by (simp only: example_view_dom)
  have t2': "n_fx (node_heap (mousemoved example_q example_dragged) (Copy 1)) = Some 110"
    using t2 by (simp only: example_view_dom c)
  show ?thesis
    using h1 example_view_eval h3 h4 h5 h6 d(1) t1' t2' t3 by (simp add: list_all_iff)
qed

text \<open>
  C4 as stated fails: with the pointer pressed at (103, 4) on the node at (100, 0), the pin
  after the start of the drag is (100, 0), not the pointer location.
\<close>

theorem pin_at_pointer_counterexample:
  "n_fx (node_heap (projr (run V2 example_place example_forces
          [Render [Caller 0, Caller 1] [Caller 0] True, PointerDown 1 example_p] example_init)) (Copy 1)) = Some 100 \<and>
   n_fy (node_heap (projr (run V2 example_place example_forces
          [Render [Caller 0, Caller 1] [Caller 0] True, PointerDown 1 example_p] example_init)) (Copy 1)) = Some 0 \<and>
   px example_p = 103 \<and> py example_p = 4"
  by (simp add: example_defs effect_defs mouse_defs example_p_def)



section \<open>No tick after teardown\<close>

lemma quiet_init: "quiet (init_state hn hl)"
  by (simp add: quiet_def init_state_def idle_simulation_def)

lemma quiet_effect:
  assumes V: "V \<noteq> V1" and q: "quiet s" and u: "\<not> unmounted s"
      and r: "useEffect_body V P ns ls oc (before_effect s) = Inr s'"
  shows "quiet s' \<and> next_sim s \<le> next_sim s' \<and> cleanup s' = Some (next_sim s) \<and> tick_log s' = tick_log s"
proof -
  let ?b = "before_effect s"
  have g: "svgRef_current ?b" "wrapperRef_current ?b" "V = V1 \<longrightarrow> ns \<noteq> []"
    using V by (simp_all add: before_effect_fields)
  obtain sn s1 where a: "(sn, s1) = (if V = V1 then (ns, ?b) else copy_nodes ns ?b)"
    by (metis surj_pair)
  obtain sl s2 where b: "(sl, s2) = (if V = V1 then (ls, s1) else copy_links ls s1)"
    by (metis surj_pair)
  have c: "copy_nodes ns ?b = (sn, s1)" "copy_links ls s1 = (sl, s2)" using a b V by simp_all
  note f1 = copy_nodes_fields [OF c(1)] and f2 = copy_links_fields [OF c(2)]
  from useEffect_body_result [OF r g a b] obtain lh where
    s': "s' = s2\<lparr> node_heap := initializeNodes P sn 0 (node_heap s2), link_heap := lh,
              sims := (sims s2)(next_sim s2 := new_simulation sn sl),
              next_sim := Suc (next_sim s2), cleanup := Some (next_sim s2),
              dom_lines := map (\<lambda>l. \<lparr> line_datum = l, line_sim = next_sim s2,
                        line_stroke = link_stroke (lh l),
                        line_x1 = None, line_y1 = None, line_x2 = None, line_y2 = None \<rparr>) sl,
              dom_nodes := map (\<lambda>n. \<lparr> el_datum = n, el_sim = next_sim s2,
                        el_click = (if V = V1 then None else Some oc),
                        el_stroke = getStatusColor (DeviceStatus_str (status (dev (node_heap s2 n)))),
                        el_shape = node_shape V (initializeNodes P sn 0 (node_heap s2) n),
                        el_transform = None \<rparr>) sn \<rparr>"
    by blast
  have nx: "next_sim s2 = next_sim s" using f1 f2 by (simp add: before_effect_fields)
  have sm: "sims s' = (sims ?b)(next_sim s := new_simulation sn sl)"
    using s' f1 f2 nx by simp
  have cl: "cleanup s' = Some (next_sim s)" using s' nx by simp
  have ns': "next_sim s' = Suc (next_sim s)" using s' nx by simp
  have tl: "tick_log s' = tick_log s" using s' f1 f2 by (simp add: before_effect_fields)
  have dk: "map el_key (dom_nodes s') = map (\<lambda>n. (n, next_sim s, if V = V1 then None else Some oc)) sn"
    using s' nx by (simp add: el_key_def)
  have 1: "\<forall>j. running (sims s' j) \<longrightarrow> cleanup s' = Some j"
  proof (intro allI impI)
    fix j assume rj: "running (sims s' j)"
    show "cleanup s' = Some j"
    proof (cases "j = next_sim s")
      case True
      then show ?thesis using cl by simp
    next
      case False
      then have "running (sims ?b j)" using rj by (simp add: sm)
      then have "running (sims s j)" "cleanup s \<noteq> Some j"
        by (auto simp: before_effect_fields split: if_splits)
      then show ?thesis using q by (simp add: quiet_def)
    qed
  qed
  have 2: "\<forall>k \<in> set (map el_key (dom_nodes s')). cleanup s' = Some (fst (snd k))"
    unfolding dk cl by auto
  have 3: "\<forall>j. cleanup s' = Some j \<longrightarrow> j < next_sim s'" using cl ns' by simp
  show ?thesis using 1 2 3 cl tl ns' unfolding quiet_def by simp
qed

lemma quiet_step:
  assumes V: "V \<noteq> V1" and q: "quiet s" and st: "step V P F e s = Inr s'"
  shows "quiet s' \<and> next_sim s \<le> next_sim s' \<and>
         (cleanup s' = cleanup s \<or> cleanup s' = None \<or> cleanup s' = Some (next_sim s)) \<and>
         (\<forall>i. cleanup s \<noteq> Some i \<longrightarrow> ticks_of i s' = ticks_of i s)"
proof (cases e)
  case (Render ns ls oc)
  show ?thesis
  proof (cases "unmounted s")
    case True
    then have "s' = s" using st Render by (simp add: render_unfold)
    then show ?thesis using q by simp
  next
    case False
    then have "useEffect_body V P ns ls oc (before_effect s) = Inr s'"
      using st Render by (simp add: render_unfold)
    from quiet_effect [OF V q False this] show ?thesis by (simp add: ticks_of_def)
  qed
next
  case Unmount
  then have s': "s' = unmount s" using st by simp
  show ?thesis
  proof (cases "unmounted s")
    case True
    then show ?thesis using q unfolding s' by (simp add: unmount_def)
  next
    case False
    have r: "\<not> running (sims (unmount s) j)" for j
      using q False
      by (auto simp: quiet_def unmount_def simulation_stop_def Let_def split: option.splits)
    have d: "dom_nodes (unmount s) = []" "cleanup (unmount s) = None" "next_sim (unmount s) = next_sim s"
        "tick_log (unmount s) = tick_log s"
      using False by (simp_all add: unmount_def simulation_stop_def Let_def split: option.splits)
    show ?thesis unfolding s' using r d by (simp add: quiet_def ticks_of_def)
  qed
next
  case (TimerFire i)
  show ?thesis
  proof (cases "running (sims s i)")
    case False
    then have "s' = s" using st TimerFire by simp
    then show ?thesis using q by simp
  next
    case True
    then have s': "s' = simulation_step F i s" using st TimerFire by simp
    have ci: "cleanup s = Some i" using q True by (simp add: quiet_def)
    have "quiet (simulation_step F i s)"
      using q unfolding quiet_def
      by (simp add: simulation_step_sims simulation_step_frame)
    moreover have "\<forall>j. cleanup s \<noteq> Some j \<longrightarrow> ticks_of j (simulation_step F i s) = ticks_of j s"
      using ci by (auto simp: ticks_of_def simulation_step_frame)
    ultimately show ?thesis unfolding s' by (simp add: simulation_step_frame)
  qed
next
  case (PointerDown k p)
  then have s': "s' = mousedowned k p s" using st by simp
  show ?thesis
  proof (cases "drag_gesture s = None \<and> k < length (dom_nodes s)")
    case False
    then show ?thesis using q unfolding s' by (simp add: mousedowned_busy)
  next
    case True
    then have "el_key (dom_nodes s ! k) \<in> set (map el_key (dom_nodes s))" by simp
    then have c: "cleanup s = Some (el_sim (dom_nodes s ! k))"
      using q unfolding quiet_def by (auto simp: el_key_def)
    have "quiet (mousedowned k p s)"
      using q c True unfolding quiet_def by (simp add: mousedowned_idle)
    then show ?thesis unfolding s' using True by (simp add: mousedowned_idle ticks_of_def)
  qed
next
  case (PointerMove p)
  then have s': "s' = mousemoved p s" using st by simp
  show ?thesis
  proof (cases "drag_gesture s")
    case None
    then show ?thesis using q unfolding s' by (simp add: mousemoved_idle)
  next
    case (Some g)
    then show ?thesis using q unfolding s' by (simp add: mousemoved_gesture quiet_def ticks_of_def)
  qed
next
  case (PointerUp p)
  then have s': "s' = mouseupped p s" using st by simp
  show ?thesis
  proof (cases "drag_gesture s")
    case None
    then show ?thesis using q unfolding s' by (simp add: mouseupped_idle)
  next
    case (Some g)
    have "quiet (released g s)" using q unfolding quiet_def by (simp add: released_def)
    moreover have "quiet (x\<lparr>selected := y\<rparr>) = quiet x" for x y by (simp add: quiet_def)
    moreover have "ticks_of i (x\<lparr>selected := y\<rparr>) = ticks_of i x" for i x y by (simp add: ticks_of_def)
    moreover have "ticks_of i (released g s) = ticks_of i s" for i by (simp add: ticks_of_def released_def)
    moreover have "next_sim (released g s) = next_sim s" "cleanup (released g s) = cleanup s"
      by (simp_all add: released_def)
    ultimately show ?thesis unfolding s' mouseupped_gesture [OF Some]
      by (simp split: option.splits bool.splits)
  qed
qed

lemma quiet_run:
  assumes V: "V \<noteq> V1"
  shows "quiet s \<Longrightarrow> run V P F es s = Inr s' \<Longrightarrow> quiet s'"
proof (induction es arbitrary: s)
  case Nil
  then show ?case by simp
next
  case (Cons e es)
  from Cons.prems(2) obtain s1 where 1: "step V P F e s = Inr s1" and 2: "run V P F es s1 = Inr s'"
    by (cases "step V P F e s") simp_all
  show ?case using Cons.IH [OF _ 2] quiet_step [OF V Cons.prems(1) 1] by blast
qed

text \<open>
  In the copying variants, once the cleanup of simulation \<open>i\<close> has run, no event sequence
  makes its tick callback run again.
\<close>

lemma teardown_stops_ticks:
  assumes V: "V \<noteq> V1"
  shows "quiet s \<Longrightarrow> torn_down i s \<Longrightarrow> run V P F es s = Inr s' \<Longrightarrow>
         torn_down i s' \<and> ticks_of i s' = ticks_of i s"
proof (induction es arbitrary: s)
  case Nil
  then show ?case by simp
next
  case (Cons e es)
  from Cons.prems(3) obtain s1 where 1: "step V P F e s = Inr s1" and 2: "run V P F es s1 = Inr s'"
    by (cases "step V P F e s") simp_all
  note q = quiet_step [OF V Cons.prems(1) 1]
  have t1: "torn_down i s1" using q Cons.prems(2) by (auto simp: torn_down_def)
  have k1: "ticks_of i s1 = ticks_of i s" using q Cons.prems(2) by (simp add: torn_down_def)
  show ?case using Cons.IH [OF _ t1 2] q k1 by simp
qed

lemma teardown_stops_ticks_reachable:
  assumes "V \<noteq> V1" "run V P F es0 (init_state hn hl) = Inr s" "torn_down i s" "run V P F es s = Inr s'"
  shows "ticks_of i s' = ticks_of i s"
  using teardown_stops_ticks [OF assms(1) quiet_run [OF assms(1) quiet_init assms(2)] assms(3,4)]
  by simp

text \<open>
  C2 fails on the guarded variant. Rendered with two devices and then with an empty node
  list, the cleanup stops simulation 0 and the new effect returns at its guard, before the
  old elements are removed. Pressing the stale element of the first node restarts
  simulation 0 (\<open>dragstarted\<close>), and the next firing of its timer calls the tick callback
  registered for the previous node set.
\<close>

theorem stale_drag_restarts_stopped_simulation:
  "cleanup (projr (run V1 example_place example_forces
      [Render [Caller 0, Caller 1] [Caller 0] False, Render [] [] False] example_init)) = None \<and>
   running (sims (projr (run V1 example_place example_forces
      [Render [Caller 0, Caller 1] [Caller 0] False, Render [] [] False] example_init)) 0) = False \<and>
   tick_log (projr (run V1 example_place example_forces
      [Render [Caller 0, Caller 1] [Caller 0] False, Render [] [] False] example_init)) = [] \<and>
   tick_log (projr (run V1 example_place example_forces
      [Render [Caller 0, Caller 1] [Caller 0] False, Render [] [] False,
       PointerDown 0 example_p, TimerFire 0] example_init)) = [0]"
  by (simp add: example_defs effect_defs mouse_defs example_p_def simulation_step_def
      simulation_tick_def apply_forces_def link_ends_def tick_callback_def)

section \<open>The caller's objects\<close>

lemma forceLink_initialize_Inr:
  assumes "forceLink_initialize h ns ls i lh = Inr lh'"
  shows "(\<forall>l \<in> set ls. resolves h ns (l_source (lh l)) (l_source (lh' l)) \<and>
                    resolves h ns (l_target (lh l)) (l_target (lh' l))) \<and>
         (\<forall>l. l \<notin> set ls \<longrightarrow> lh' l = lh l)"
proof -
  have nd: "\<forall>l \<in> set ls. \<not> endpoint_unknown h ns (l_source (lh l)) \<and> \<not> endpoint_unknown h ns (l_target (lh l))"
  proof (rule ccontr)
    assume "\<not> ?thesis"
    then obtain l where l: "l \<in> set ls"
      "endpoint_unknown h ns (l_source (lh l)) \<or> endpoint_unknown h ns (l_target (lh l))" by blast
    have "\<exists>x. forceLink_initialize h ns ls i lh = Inl (NodeNotFound x) \<and> x \<notin> node_ids h ns"
      using l by (rule forceLink_initialize_dangling [where lh = lh])
    then show False using assms by simp
  qed
  from forceLink_initialize_present [where lh = lh and i = i, OF nd] assms
  show ?thesis by auto
qed

lemma resolves_id: "is_id e \<Longrightarrow> resolves h ns e e' \<Longrightarrow> \<exists>a \<in> set ns. e' = NodeRef a"
  by (cases e; cases e') (auto simp: resolves_def)

lemma list_all_link_ends:
  "list_all Q (link_ends lh ls) =
     (\<forall>l \<in> set ls. list_all Q (endpoint_addrs (l_source (lh l))) \<and>
                    list_all Q (endpoint_addrs (l_target (lh l))))"
  by (auto simp: link_ends_def list_all_iff)

lemma link_ends_cong: "(\<And>l. l \<in> set ls \<Longrightarrow> lh' l = lh l) \<Longrightarrow> link_ends lh' ls = link_ends lh ls"
  unfolding link_ends_def by (rule arg_cong [where f = concat]) simp

lemma is_copy_iff: "is_copy a = (a \<notin> range Caller)"
  by (cases a) auto

lemma allocated_link_mono: "allocated_link n l \<Longrightarrow> n \<le> m \<Longrightarrow> allocated_link m l"
  by (cases l) simp_all

lemma copies_only_init: "copies_only (init_state hn hl)"
  by (simp add: copies_only_def init_state_def idle_simulation_def link_ends_def)

lemma caller_unchanged_init: "caller_unchanged hn hl (init_state hn hl)"
  by (simp add: caller_unchanged_def init_state_def)


lemma copy_links_next:
  assumes "set ls \<subseteq> range Caller" "copy_links ls s = (sl, s')"
  shows "next_link s' = next_link s + length ls"
proof -
  from copy_links_spec [OF assms]
  have "s' = s\<lparr>link_heap := link_heap s', next_link := next_link s + length ls\<rparr>" by blast
  then have "next_link s' = next_link (s\<lparr>link_heap := link_heap s', next_link := next_link s + length ls\<rparr>)"
    by (rule arg_cong)
  then show ?thesis by simp
qed

lemma copies_only_effect:
  assumes V: "V \<noteq> V1" and co: "copies_only s" and cu: "caller_unchanged hn hl s"
      and ty: "caller_links_typed hl"
      and pr: "set ns \<subseteq> range Caller" "set ls \<subseteq> range Caller"
      and r: "useEffect_body V P ns ls oc (before_effect s) = Inr s'"
  shows "copies_only s' \<and> caller_unchanged hn hl s'"
proof -
  let ?b = "before_effect s"
  have g: "svgRef_current ?b" "wrapperRef_current ?b" "V = V1 \<longrightarrow> ns \<noteq> []"
    using V by (simp_all add: before_effect_fields)
  obtain sn s1 where a: "(sn, s1) = (if V = V1 then (ns, ?b) else copy_nodes ns ?b)"
    by (metis surj_pair)
  obtain sl s2 where b: "(sl, s2) = (if V = V1 then (ls, s1) else copy_links ls s1)"
    by (metis surj_pair)
  have c: "copy_nodes ns ?b = (sn, s1)" "copy_links ls s1 = (sl, s2)" using a b V by simp_all
  note f1 = copy_nodes_fields [OF c(1)] and f2 = copy_links_fields [OF c(2)]
  note p1 = copy_nodes_spec [OF pr(1) c(1)] and p2 = copy_links_spec [OF pr(2) c(2)]
  from useEffect_body_result [OF r g a b] obtain lh where
    fl: "forceLink_initialize (initializeNodes P sn 0 (node_heap s2)) sn sl 0 (link_heap s2) = Inr lh" and
    s': "s' = s2\<lparr> node_heap := initializeNodes P sn 0 (node_heap s2), link_heap := lh,
              sims := (sims s2)(next_sim s2 := new_simulation sn sl),
              next_sim := Suc (next_sim s2), cleanup := Some (next_sim s2),
              dom_lines := map (\<lambda>l. \<lparr> line_datum = l, line_sim = next_sim s2,
                        line_stroke = link_stroke (lh l),
                        line_x1 = None, line_y1 = None, line_x2 = None, line_y2 = None \<rparr>) sl,
              dom_nodes := map (\<lambda>n. \<lparr> el_datum = n, el_sim = next_sim s2,
                        el_click = (if V = V1 then None else Some oc),
                        el_stroke = getStatusColor (DeviceStatus_str (status (dev (node_heap s2 n)))),
                        el_shape = node_shape V (initializeNodes P sn 0 (node_heap s2) n),
                        el_transform = None \<rparr>) sn \<rparr>"
    by blast
  note fi = forceLink_initialize_Inr [OF fl]
  \<comment> \<open>the arrays\<close>
  have sn: "sn = map Copy [next_node ?b ..< next_node ?b + length ns]" using p1 by blast
  have sl: "sl = map Copy [next_link s1 ..< next_link s1 + length ls]" using p2 by blast
  have nl1: "next_link s1 = next_link s" using f1 by (simp add: before_effect_fields)
  have nl2: "next_link s2 = next_link s + length ls" using copy_links_next [OF pr(2) c(2)] nl1 by simp
  have sn_copy: "list_all is_copy sn" unfolding sn by (simp add: list_all_iff)
  have sl_new: "\<forall>l \<in> set sl. \<exists>j. l = Copy j \<and> next_link s \<le> j \<and> j < next_link s + length ls"
    unfolding sl nl1 by auto
  \<comment> \<open>the heaps\<close>
  have nh: "node_heap s' = initializeNodes P sn 0 (node_heap s2)" using s' by simp
  have lh: "link_heap s' = lh" using s' by simp
  have nh_caller: "node_heap s' (Caller j) = node_heap s (Caller j)" for j
  proof -
    have n: "Caller j \<notin> set sn" unfolding sn by auto
    have "node_heap s' (Caller j) = node_heap s2 (Caller j)" unfolding nh using n by (rule initializeNodes_other)
    also have "\<dots> = node_heap s1 (Caller j)" using f2 by simp
    also have "\<dots> = node_heap ?b (Caller j)" using p1 n by blast
    finally show ?thesis by (simp add: before_effect_fields)
  qed
  have l2_out: "l \<notin> set sl \<Longrightarrow> link_heap s2 l = link_heap s l" for l
  proof -
    assume "l \<notin> set sl"
    then have "link_heap s2 l = link_heap s1 l" using p2 by blast
    then show ?thesis using f1 by (simp add: before_effect_fields)
  qed
  have lh_out: "l \<notin> set sl \<Longrightarrow> link_heap s' l = link_heap s l" for l
    unfolding lh using fi l2_out by simp
  have lh_caller: "link_heap s' (Caller j) = link_heap s (Caller j)" for j
    by (rule lh_out) (use sl_new in auto)
  have lh_old: "allocated_link (next_link s) l \<Longrightarrow> link_heap s' l = link_heap s l" for l
  proof -
    assume al: "allocated_link (next_link s) l"
    have "l \<notin> set sl"
    proof
      assume "l \<in> set sl"
      then obtain j where "l = Copy j" "next_link s \<le> j" using sl_new by blast
      then show False using al by simp
    qed
    then show ?thesis by (rule lh_out)
  qed
  \<comment> \<open>the new links are copies of the caller's, whose endpoints are ids\<close>
  have img: "link_heap s2 ` set sl = link_heap s ` set ls"
  proof -
    have "map (link_heap s2) sl = map (link_heap s1) ls" using p2 by blast
    then have "set (map (link_heap s2) sl) = set (map (link_heap s1) ls)" by simp
    then show ?thesis using f1 by (simp add: before_effect_fields)
  qed
  have typed: "is_id (l_source (link_heap s2 l)) \<and> is_id (l_target (link_heap s2 l))" if "l \<in> set sl" for l
  proof -
    have "link_heap s2 l \<in> link_heap s ` set ls" using that img by blast
    then obtain l0 where l0: "l0 \<in> set ls" "link_heap s2 l = link_heap s l0" by blast
    then obtain j where "l0 = Caller j" using pr(2) by blast
    then have "link_heap s l0 = hl (Caller j)" using cu by (simp add: caller_unchanged_def)
    then show ?thesis using l0 ty by (simp add: caller_links_typed_def)
  qed
  have new_ends: "list_all is_copy (link_ends lh sl)"
  proof -
    have "list_all is_copy (endpoint_addrs (l_source (lh l))) \<and>
          list_all is_copy (endpoint_addrs (l_target (lh l)))" if "l \<in> set sl" for l
    proof -
      from fi that have rs: "resolves (initializeNodes P sn 0 (node_heap s2)) sn (l_source (link_heap s2 l)) (l_source (lh l))"
        "resolves (initializeNodes P sn 0 (node_heap s2)) sn (l_target (link_heap s2 l)) (l_target (lh l))"
        by blast+
      from resolves_id [OF _ rs(1)] typed [OF that] obtain a where a: "a \<in> set sn" "l_source (lh l) = NodeRef a" by blast
      from resolves_id [OF _ rs(2)] typed [OF that] obtain b where b: "b \<in> set sn" "l_target (lh l) = NodeRef b" by blast
      show ?thesis using a b sn_copy by (simp add: endpoint_addrs_def list_all_iff)
    qed
    then show ?thesis by (simp add: list_all_link_ends)
  qed
  \<comment> \<open>the simulations\<close>
  have nx: "next_sim s2 = next_sim s" using f1 f2 by (simp add: before_effect_fields)
  have sm: "sims s' i = (if i = next_sim s then new_simulation sn sl else sims ?b i)" for i
    using s' f1 f2 nx by simp
  have old_nodes: "sim_nodes (sims ?b i) = sim_nodes (sims s i)" for i by (simp add: before_effect_fields)
  have old_links: "sim_links (sims ?b i) = sim_links (sims s i)" for i by (simp add: before_effect_fields)
  have nl': "next_link s' = next_link s + length ls" using s' nl2 by simp
  have 1: "list_all is_copy (sim_nodes (sims s' i))" for i
    using co sn_copy by (simp add: sm old_nodes new_simulation_def copies_only_def)
  have 2: "list_all (allocated_link (next_link s')) (sim_links (sims s' i))" for i
  proof (cases "i = next_sim s")
    case True
    have "list_all (allocated_link (next_link s + length ls)) sl"
      using sl_new by (auto simp: list_all_iff)
    then show ?thesis using True by (simp add: sm new_simulation_def nl')
  next
    case False
    have "list_all (allocated_link (next_link s)) (sim_links (sims s i))" using co by (simp add: copies_only_def)
    then have "list_all (allocated_link (next_link s + length ls)) (sim_links (sims s i))"
      by (auto simp: list_all_iff intro: allocated_link_mono)
    then show ?thesis using False by (simp add: sm old_links nl')
  qed
  have 3: "list_all is_copy (link_ends (link_heap s') (sim_links (sims s' i)))" for i
  proof (cases "i = next_sim s")
    case True
    then show ?thesis using new_ends by (simp add: sm new_simulation_def lh)
  next
    case False
    have al: "list_all (allocated_link (next_link s)) (sim_links (sims s i))" using co by (simp add: copies_only_def)
    have "link_ends (link_heap s') (sim_links (sims s i)) = link_ends (link_heap s) (sim_links (sims s i))"
      by (rule link_ends_cong) (use al lh_old in \<open>auto simp: list_all_iff\<close>)
    then show ?thesis using False co by (simp add: sm old_links copies_only_def)
  qed
  have 4: "list_all is_copy (map fst (map el_key (dom_nodes s')))"
    using s' sn_copy by (simp add: el_key_def list_all_iff)
  have 5: "(case drag_gesture s' of None \<Rightarrow> True | Some g \<Rightarrow> is_copy (g_subject g))"
    using co s' f1 f2 by (simp add: copies_only_def before_effect_fields)
  have "copies_only s'" unfolding copies_only_def using 1 2 3 4 5 by blast
  moreover have "caller_unchanged hn hl s'"
    using cu nh_caller lh_caller by (simp add: caller_unchanged_def)
  ultimately show ?thesis by blast
qed


lemma copies_only_cong:
  assumes "copies_only s"
      and "\<And>i. sim_nodes (sims s' i) = sim_nodes (sims s i)"
      and "\<And>i. sim_links (sims s' i) = sim_links (sims s i)"
      and "link_heap s' = link_heap s" "next_link s' = next_link s"
      and "map el_key (dom_nodes s') = map el_key (dom_nodes s)"
      and "drag_gesture s' = drag_gesture s"
  shows "copies_only s'"
  using assms unfolding copies_only_def by simp

lemma caller_unchanged_heap:
  assumes "caller_unchanged hn hl s" "link_heap s' = link_heap s"
      and "\<And>j. node_heap s' (Caller j) = node_heap s (Caller j)"
  shows "caller_unchanged hn hl s'"
  using assms unfolding caller_unchanged_def by simp

lemma copies_only_touched: "copies_only s \<Longrightarrow> Caller j \<notin> touched s i"
proof -
  assume co: "copies_only s"
  then have "list_all is_copy (sim_nodes (sims s i))"
    "list_all is_copy (link_ends (link_heap s) (sim_links (sims s i)))"
    by (simp_all add: copies_only_def)
  then show ?thesis by (auto simp: touched_def list_all_iff)
qed

lemma copies_only_datum:
  assumes "copies_only s" "k < length (dom_nodes s)"
  shows "is_copy (el_datum (dom_nodes s ! k))"
proof -
  have "list_all is_copy (map fst (map el_key (dom_nodes s)))" using assms(1) by (simp add: copies_only_def)
  moreover have "el_datum (dom_nodes s ! k) \<in> set (map fst (map el_key (dom_nodes s)))"
    using assms(2) by (auto simp: el_key_def)
  ultimately show ?thesis by (auto simp: list_all_iff)
qed

lemma copies_only_step:
  assumes V: "V \<noteq> V1" and ty: "caller_links_typed hl" and pr: "caller_props e"
      and co: "copies_only s" and cu: "caller_unchanged hn hl s"
      and st: "step V P F e s = Inr s'"
  shows "copies_only s' \<and> caller_unchanged hn hl s'"
proof (cases e)
  case (Render ns ls oc)
  show ?thesis
  proof (cases "unmounted s")
    case True
    then have "s' = s" using st Render by (simp add: render_unfold)
    then show ?thesis using co cu by simp
  next
    case False
    then have r: "useEffect_body V P ns ls oc (before_effect s) = Inr s'"
      using st Render by (simp add: render_unfold)
    have "set ns \<subseteq> range Caller" "set ls \<subseteq> range Caller"
      using pr Render by (simp_all add: list_all_is_caller)
    from copies_only_effect [OF V co cu ty this r] show ?thesis .
  qed
next
  case Unmount
  then have s': "s' = unmount s" using st by simp
  show ?thesis
  proof (cases "unmounted s")
    case True
    then show ?thesis using co cu unfolding s' by (simp add: unmount_def)
  next
    case False
    have "copies_only (unmount s)"
      using co False unfolding copies_only_def
      by (simp add: unmount_def simulation_stop_def Let_def split: option.splits)
    moreover have "caller_unchanged hn hl (unmount s)"
      using cu False unfolding caller_unchanged_def
      by (simp add: unmount_def simulation_stop_def Let_def split: option.splits)
    ultimately show ?thesis unfolding s' by simp
  qed
next
  case (TimerFire i)
  show ?thesis
  proof (cases "running (sims s i)")
    case False
    then have "s' = s" using st TimerFire by simp
    then show ?thesis using co cu by simp
  next
    case True
    then have s': "s' = simulation_step F i s" using st TimerFire by simp
    have "copies_only (simulation_step F i s)"
      by (rule copies_only_cong [OF co]) (simp_all add: simulation_step_sims simulation_step_frame)
    moreover have "caller_unchanged hn hl (simulation_step F i s)"
    proof (rule caller_unchanged_heap [OF cu])
      show "link_heap (simulation_step F i s) = link_heap s" by (simp add: simulation_step_frame)
      show "node_heap (simulation_step F i s) (Caller j) = node_heap s (Caller j)" for j
        unfolding simulation_step_frame
        by (rule simulation_tick_heap_other) (rule copies_only_touched [OF co])
    qed
    ultimately show ?thesis unfolding s' by simp
  qed
next
  case (PointerDown k p)
  then have s': "s' = mousedowned k p s" using st by simp
  show ?thesis
  proof (cases "drag_gesture s = None \<and> k < length (dom_nodes s)")
    case False
    then show ?thesis using co cu unfolding s' by (simp add: mousedowned_busy)
  next
    case True
    have ic: "is_copy (el_datum (dom_nodes s ! k))" using copies_only_datum [OF co] True by simp
    then have nc: "Caller j \<noteq> el_datum (dom_nodes s ! k)" for j
      by (cases "el_datum (dom_nodes s ! k)") simp_all
    have "copies_only (mousedowned k p s)"
      using co ic True unfolding copies_only_def by (simp add: mousedowned_idle)
    moreover have "caller_unchanged hn hl (mousedowned k p s)"
      using cu nc True unfolding caller_unchanged_def by (simp add: mousedowned_idle)
    ultimately show ?thesis unfolding s' by simp
  qed
next
  case (PointerMove p)
  then have s': "s' = mousemoved p s" using st by simp
  show ?thesis
  proof (cases "drag_gesture s")
    case None
    then show ?thesis using co cu unfolding s' by (simp add: mousemoved_idle)
  next
    case (Some g)
    have ic: "is_copy (g_subject g)" using co Some by (simp add: copies_only_def)
    then have nc: "Caller j \<noteq> g_subject g" for j
      by (cases "g_subject g") simp_all
    have "copies_only (mousemoved p s)"
      using co ic Some unfolding copies_only_def by (simp add: mousemoved_gesture)
    moreover have "caller_unchanged hn hl (mousemoved p s)"
      using cu nc Some unfolding caller_unchanged_def by (simp add: mousemoved_gesture)
    ultimately show ?thesis unfolding s' by simp
  qed
next
  case (PointerUp p)
  then have s': "s' = mouseupped p s" using st by simp
  show ?thesis
  proof (cases "drag_gesture s")
    case None
    then show ?thesis using co cu unfolding s' by (simp add: mouseupped_idle)
  next
    case (Some g)
    have ic: "is_copy (g_subject g)" using co Some by (simp add: copies_only_def)
    then have nc: "Caller j \<noteq> g_subject g" for j
      by (cases "g_subject g") simp_all
    have a: "copies_only (released g s)"
      using co unfolding copies_only_def by (simp add: released_def)
    have b: "caller_unchanged hn hl (released g s)"
      using cu nc unfolding caller_unchanged_def by (simp add: released_def)
    have c: "copies_only (x\<lparr>selected := y\<rparr>) = copies_only x" for x y by (simp add: copies_only_def)
    have d: "caller_unchanged hn hl (x\<lparr>selected := y\<rparr>) = caller_unchanged hn hl x" for x y
      by (simp add: caller_unchanged_def)
    show ?thesis unfolding s' mouseupped_gesture [OF Some]
      using a b by (simp add: c d split: option.splits bool.splits)
  qed
qed

lemma copies_only_run:
  assumes V: "V \<noteq> V1" and ty: "caller_links_typed hl"
  shows "\<forall>e \<in> set es. caller_props e \<Longrightarrow> copies_only s \<and> caller_unchanged hn hl s \<Longrightarrow>
         run V P F es s = Inr s' \<Longrightarrow> copies_only s' \<and> caller_unchanged hn hl s'"
  by (rule run_invariant [where Q = caller_props and I = "\<lambda>s. copies_only s \<and> caller_unchanged hn hl s"])
     (use copies_only_step [OF V ty] in blast)

text \<open>
  C9. In the copying variants the view never writes a caller-supplied object: after any
  sequence of renders with the caller's objects, timer ticks and drag gestures, every node
  object and every link object of the caller is what it was before the first render.
\<close>

theorem caller_objects_never_mutated:
  assumes "V \<in> {V2, V3}"
      and "\<forall>e \<in> set es. caller_props e"
      and "caller_links_typed hl"
      and "run V P F es (init_state hn hl) = Inr s"
  shows "(\<forall>j. node_heap s (Caller j) = hn (Caller j)) \<and> (\<forall>j. link_heap s (Caller j) = hl (Caller j))"
proof -
  have V: "V \<noteq> V1" using assms(1) by auto
  have "copies_only (init_state hn hl) \<and> caller_unchanged hn hl (init_state hn hl)"
    by (simp add: copies_only_init caller_unchanged_init)
  from copies_only_run [OF V assms(3) assms(2) this assms(4)]
  show ?thesis by (simp add: caller_unchanged_def)
qed


lemmas tick_defs = simulation_step_def simulation_tick_def apply_forces_def link_ends_def
  endpoint_addrs_def tick_callback_def tick_line_def tick_node_def endpoint_x_def endpoint_y_def
  set_kin_def integrate_node_def num_add_def num_scale_def

text \<open>
  The theorem at the example session: a render, a drag of node \<open>b\<close> and a tick. The copy of
  \<open>b\<close> has moved; the caller's objects have no simulation fields and unresolved links.
\<close>

theorem caller_objects_never_mutated_witness:
  "V2 \<in> {V2, V3} \<and> list_all caller_props example_session \<and>
   caller_links_typed example_link_heap \<and>
   run V2 example_place example_forces example_session
     (init_state example_node_heap example_link_heap) = Inr example_final \<and>
   node_heap example_final (Caller 1) = example_node_heap (Caller 1) \<and>
   link_heap example_final (Caller 0) = example_link_heap (Caller 0) \<and>
   n_x (example_node_heap (Caller 1)) = None \<and>
   n_x (node_heap example_final (Copy 1)) = Some (503 / 5)"
proof -
  have h1: "V2 \<in> {V2, V3}" by simp
  have h2: "\<forall>e \<in> set example_session. caller_props e"
    by (simp add: example_session_def)
  have h3: "caller_links_typed example_link_heap"
    by (simp add: caller_links_typed_def example_link_heap_def example_link_def)
  have h4: "run V2 example_place example_forces example_session
     (init_state example_node_heap example_link_heap) = Inr example_final"
    by (simp add: example_final_def example_session_def example_defs effect_defs mouse_defs
        example_p_def example_q_def tick_defs)
  have x: "n_x (node_heap example_final (Copy 1)) = Some (503 / 5)"
    by (simp add: example_final_def example_session_def example_defs effect_defs mouse_defs
        example_p_def example_q_def tick_defs)
  have y: "n_x (example_node_heap (Caller 1)) = None"
    by (simp add: example_defs)
  from caller_objects_never_mutated [OF h1 h2 h3 h4]
  show ?thesis using h1 h2 h3 h4 x y by (simp add: list_all_iff)
qed

text \<open>
  The guarded variant has no copies: its first render already writes the position of the
  caller's node object and replaces the caller's link endpoint by a node object.
\<close>

lemma guarded_variant_writes_caller_objects:
  "n_x (node_heap (projr (run V1 example_place example_forces
      [Render [Caller 0, Caller 1] [Caller 0] False] example_init)) (Caller 1)) = Some 100 \<and>
   l_source (link_heap (projr (run V1 example_place example_forces
      [Render [Caller 0, Caller 1] [Caller 0] False] example_init)) (Caller 0)) = NodeRef (Caller 0)"
  by (simp add: example_defs effect_defs)

section \<open>Lines follow the nodes\<close>

lemma end_in_iff: "end_in ns e = (\<exists>a \<in> set ns. e = NodeRef a)"
  by (cases e) auto

lemma lines_attached_init: "lines_attached (init_state hn hl)"
  by (simp add: lines_attached_def init_state_def)

lemma lines_attached_cong:
  assumes "lines_attached s"
      and "cleanup s' = cleanup s"
      and "\<And>i. sim_nodes (sims s' i) = sim_nodes (sims s i)"
      and "\<And>i. on_tick (sims s' i) = on_tick (sims s i)"
      and "link_heap s' = link_heap s"
      and "map line_key (dom_lines s') = map line_key (dom_lines s)"
  shows "lines_attached s'"
  using assms unfolding lines_attached_def line_attached_def by simp

lemma simulation_step_lines:
  "dom_lines (simulation_step F i s) =
     (if on_tick (sims s i)
      then map (\<lambda>e. if line_sim e = i then tick_line (simulation_tick F i s) e else e) (dom_lines s)
      else dom_lines s)"
  by (simp add: simulation_step_def Let_def simulation_tick_sims simulation_tick_frame
      tick_callback_def simulation_stop_def)

lemma simulation_step_line_keys:
  "map line_key (dom_lines (simulation_step F i s)) = map line_key (dom_lines s)"
  by (simp add: simulation_step_lines line_key_def tick_line_def Let_def)

lemma simulation_step_on_tick:
  "on_tick (sims (simulation_step F i s) j) = on_tick (sims s j)"
  "sim_nodes (sims (simulation_step F i s) j) = sim_nodes (sims s j)"
  by (simp_all add: simulation_step_sims)

lemma lines_attached_effect:
  assumes V: "V \<noteq> V1" and cu: "caller_unchanged hn hl s"
      and ty: "caller_links_typed hl"
      and pr: "set ns \<subseteq> range Caller" "set ls \<subseteq> range Caller"
      and r: "useEffect_body V P ns ls oc (before_effect s) = Inr s'"
  shows "lines_attached s'"
proof -
  let ?b = "before_effect s"
  have g: "svgRef_current ?b" "wrapperRef_current ?b" "V = V1 \<longrightarrow> ns \<noteq> []"
    using V by (simp_all add: before_effect_fields)
  obtain sn s1 where a: "(sn, s1) = (if V = V1 then (ns, ?b) else copy_nodes ns ?b)"
    by (metis surj_pair)
  obtain sl s2 where b: "(sl, s2) = (if V = V1 then (ls, s1) else copy_links ls s1)"
    by (metis surj_pair)
  have c: "copy_nodes ns ?b = (sn, s1)" "copy_links ls s1 = (sl, s2)" using a b V by simp_all
  note f1 = copy_nodes_fields [OF c(1)] and f2 = copy_links_fields [OF c(2)]
  note p2 = copy_links_spec [OF pr(2) c(2)]
  from useEffect_body_result [OF r g a b] obtain lh where
    fl: "forceLink_initialize (initializeNodes P sn 0 (node_heap s2)) sn sl 0 (link_heap s2) = Inr lh" and
    s': "s' = s2\<lparr> node_heap := initializeNodes P sn 0 (node_heap s2), link_heap := lh,
              sims := (sims s2)(next_sim s2 := new_simulation sn sl),
              next_sim := Suc (next_sim s2), cleanup := Some (next_sim s2),
              dom_lines := map (\<lambda>l. \<lparr> line_datum = l, line_sim = next_sim s2,
                        line_stroke = link_stroke (lh l),
                        line_x1 = None, line_y1 = None, line_x2 = None, line_y2 = None \<rparr>) sl,
              dom_nodes := map (\<lambda>n. \<lparr> el_datum = n, el_sim = next_sim s2,
                        el_click = (if V = V1 then None else Some oc),
                        el_stroke = getStatusColor (DeviceStatus_str (status (dev (node_heap s2 n)))),
                        el_shape = node_shape V (initializeNodes P sn 0 (node_heap s2) n),
                        el_transform = None \<rparr>) sn \<rparr>"
    by blast
  note fi = forceLink_initialize_Inr [OF fl]
  have img: "link_heap s2 ` set sl = link_heap s ` set ls"
  proof -
    have "map (link_heap s2) sl = map (link_heap s1) ls" using p2 by blast
    then have "set (map (link_heap s2) sl) = set (map (link_heap s1) ls)" by simp
    then show ?thesis using f1 by (simp add: before_effect_fields)
  qed
  have typed: "is_id (l_source (link_heap s2 l)) \<and> is_id (l_target (link_heap s2 l))" if "l \<in> set sl" for l
  proof -
    have "link_heap s2 l \<in> link_heap s ` set ls" using that img by blast
    then obtain l0 where l0: "l0 \<in> set ls" "link_heap s2 l = link_heap s l0" by blast
    then obtain j where "l0 = Caller j" using pr(2) by blast
    then have "link_heap s l0 = hl (Caller j)" using cu by (simp add: caller_unchanged_def)
    then show ?thesis using l0 ty by (simp add: caller_links_typed_def)
  qed
  have ends: "end_in sn (l_source (lh l)) \<and> end_in sn (l_target (lh l))" if "l \<in> set sl" for l
  proof -
    from fi that have rs: "resolves (initializeNodes P sn 0 (node_heap s2)) sn (l_source (link_heap s2 l)) (l_source (lh l))"
      "resolves (initializeNodes P sn 0 (node_heap s2)) sn (l_target (link_heap s2 l)) (l_target (lh l))"
      by blast+
    from resolves_id [OF _ rs(1)] typed [OF that] obtain a where a: "a \<in> set sn" "l_source (lh l) = NodeRef a" by blast
    from resolves_id [OF _ rs(2)] typed [OF that] obtain b where b: "b \<in> set sn" "l_target (lh l) = NodeRef b" by blast
    show ?thesis using a b by simp
  qed
  have "line_attached s' k" if "k \<in> set (map line_key (dom_lines s'))" for k
  proof -
    from that obtain l where l: "l \<in> set sl" "k = (l, next_sim s2, link_stroke (lh l))"
      unfolding s' by (auto simp: line_key_def)
    show ?thesis unfolding line_attached_def l(2) using ends [OF l(1)]
      by (simp add: s' new_simulation_def)
  qed
  then show ?thesis unfolding lines_attached_def list_all_iff by blast
qed

lemma lines_attached_step:
  assumes V: "V \<noteq> V1" and ty: "caller_links_typed hl" and pr: "caller_props e"
      and la: "lines_attached s" and cu: "caller_unchanged hn hl s"
      and st: "step V P F e s = Inr s'"
  shows "lines_attached s'"
proof (cases e)
  case (Render ns ls oc)
  show ?thesis
  proof (cases "unmounted s")
    case True
    then have "s' = s" using st Render by (simp add: render_unfold)
    then show ?thesis using la by simp
  next
    case False
    then have r: "useEffect_body V P ns ls oc (before_effect s) = Inr s'"
      using st Render by (simp add: render_unfold)
    have "set ns \<subseteq> range Caller" "set ls \<subseteq> range Caller"
      using pr Render by (simp_all add: list_all_is_caller)
    from lines_attached_effect [OF V cu ty this r] show ?thesis .
  qed
next
  case Unmount
  then have s': "s' = unmount s" using st by simp
  show ?thesis
  proof (cases "unmounted s")
    case True
    then show ?thesis using la unfolding s' by (simp add: unmount_def)
  next
    case False
    then show ?thesis unfolding s' lines_attached_def
      by (simp add: unmount_def Let_def)
  qed
next
  case (TimerFire i)
  show ?thesis
  proof (cases "running (sims s i)")
    case False
    then have "s' = s" using st TimerFire by simp
    then show ?thesis using la by simp
  next
    case True
    then have s': "s' = simulation_step F i s" using st TimerFire by simp
    show ?thesis unfolding s'
      by (rule lines_attached_cong [OF la])
         (simp_all add: simulation_step_frame simulation_step_on_tick simulation_step_line_keys)
  qed
next
  case (PointerDown k p)
  then have s': "s' = mousedowned k p s" using st by simp
  show ?thesis
  proof (cases "drag_gesture s = None \<and> k < length (dom_nodes s)")
    case False
    then show ?thesis using la unfolding s' by (simp add: mousedowned_busy)
  next
    case True
    show ?thesis unfolding s'
      by (rule lines_attached_cong [OF la]) (use True in \<open>simp_all add: mousedowned_idle\<close>)
  qed
next
  case (PointerMove p)
  then have s': "s' = mousemoved p s" using st by simp
  show ?thesis
  proof (cases "drag_gesture s")
    case None
    then show ?thesis using la unfolding s' by (simp add: mousemoved_idle)
  next
    case (Some g)
    show ?thesis unfolding s'
      by (rule lines_attached_cong [OF la]) (simp_all add: mousemoved_gesture [OF Some])
  qed
next
  case (PointerUp p)
  then have s': "s' = mouseupped p s" using st by simp
  show ?thesis
  proof (cases "drag_gesture s")
    case None
    then show ?thesis using la unfolding s' by (simp add: mouseupped_idle)
  next
    case (Some g)
    have a: "lines_attached (released g s)"
      by (rule lines_attached_cong [OF la]) (simp_all add: released_def)
    have "line_attached (x\<lparr>selected := y\<rparr>) = line_attached x" for x y
      by (rule ext) (simp add: line_attached_def)
    then have c: "lines_attached (x\<lparr>selected := y\<rparr>) = lines_attached x" for x y
      by (simp add: lines_attached_def)
    show ?thesis unfolding s' mouseupped_gesture [OF Some]
      using a by (simp add: c split: option.splits bool.splits)
  qed
qed

lemma lines_attached_run:
  assumes V: "V \<noteq> V1" and ty: "caller_links_typed hl"
      and pr: "\<forall>e \<in> set es. caller_props e"
      and r: "run V P F es (init_state hn hl) = Inr s"
  shows "lines_attached s"
proof -
  let ?I = "\<lambda>s. (copies_only s \<and> caller_unchanged hn hl s) \<and> lines_attached s"
  have "?I s"
  proof (rule run_invariant [where Q = caller_props and I = ?I, OF _ pr _ r])
    show "?I (init_state hn hl)"
      by (simp add: copies_only_init caller_unchanged_init lines_attached_init)
  next
    fix e s0 s1
    assume "caller_props e" "?I s0" "step V P F e s0 = Inr s1"
    then show "?I s1"
      using copies_only_step [OF V ty] lines_attached_step [OF V ty] by blast
  qed
  then show ?thesis by blast
qed

lemma tick_line_on_nodes:
  assumes "line_attached s (line_key e)" "line_sim e = i" "e \<in> set (dom_lines s)"
  shows "line_on_nodes (simulation_step F i s) (sim_nodes (sims s i)) (tick_line (simulation_tick F i s) e)"
proof -
  from assms(1,2) obtain a b where
    ab: "a \<in> set (sim_nodes (sims s i))" "l_source (link_heap s (line_datum e)) = NodeRef a"
        "b \<in> set (sim_nodes (sims s i))" "l_target (link_heap s (line_datum e)) = NodeRef b"
    by (auto simp: line_attached_def line_key_def end_in_iff)
  show ?thesis
    using ab
    by (simp add: line_on_nodes_def simulation_step_frame tick_line_def Let_def simulation_tick_frame
        endpoint_x_def endpoint_y_def)
qed

text \<open>
  In the copying variants, in every reachable state a tick of the running simulation leaves
  every line in the document at the positions of two nodes of that simulation, the ones
  its link joins.
\<close>

lemma lines_follow_nodes:
  assumes V: "V \<noteq> V1" and ty: "caller_links_typed hl"
      and pr: "\<forall>e \<in> set es. caller_props e"
      and r: "run V P F es (init_state hn hl) = Inr s"
      and run: "running (sims s i)"
  shows "cleanup (simulation_step F i s) = Some i \<and>
         list_all (line_on_nodes (simulation_step F i s) (sim_nodes (sims (simulation_step F i s) i)))
           (dom_lines (simulation_step F i s))"
proof -
  have q: "quiet s" by (rule quiet_run [OF V quiet_init r])
  have la: "lines_attached s" by (rule lines_attached_run [OF V ty pr r])
  have cl: "cleanup s = Some i" using q run by (simp add: quiet_def)
  have at: "line_attached s (line_key e)" if "e \<in> set (dom_lines s)" for e
    using la that by (simp add: lines_attached_def list_all_iff)
  have ls: "line_sim e = i" if "e \<in> set (dom_lines s)" for e
    using at [OF that] cl by (simp add: line_attached_def line_key_def)
  show ?thesis
  proof (cases "dom_lines s = []")
    case True
    then show ?thesis using cl by (simp add: simulation_step_frame simulation_step_lines)
  next
    case False
    then obtain e0 where e0: "e0 \<in> set (dom_lines s)" by (cases "dom_lines s") auto
    have ot: "on_tick (sims s i)" using at [OF e0] ls [OF e0] by (simp add: line_attached_def line_key_def)
    have "line_on_nodes (simulation_step F i s) (sim_nodes (sims s i)) e'"
      if "e' \<in> set (dom_lines (simulation_step F i s))" for e'
    proof -
      from that ot obtain e where e: "e \<in> set (dom_lines s)" "e' = tick_line (simulation_tick F i s) e"
        using ls by (auto simp: simulation_step_lines)
      show ?thesis unfolding e(2) by (rule tick_line_on_nodes [OF at [OF e(1)] ls [OF e(1)] e(1)])
    qed
    then show ?thesis using cl
      by (simp add: simulation_step_frame simulation_step_on_tick list_all_iff)
  qed
qed

text \<open>
  C7. After every tick the endpoints of a rendered line are the current positions of the
  link's source and target nodes. This fails on the guarded variant, which hands the
  caller's link objects to the link force: rendered with devices \<open>a\<close>, \<open>b\<close> and the link
  between them, the link's endpoints become the node objects 0 and 1. Rendered again with
  the same link object and new node objects 3 and 4 for \<open>a\<close> and \<open>b\<close>, the link force finds
  objects in place of ids and keeps them. After the first tick of the new simulation the
  nodes are at \<open>x = 0.6\<close> and \<open>x = 100.6\<close>, the line is drawn from \<open>x = 0\<close> to \<open>x = 100\<close>, where
  the node objects of the stopped simulation stay.
\<close>

theorem stale_line_after_rerender:
  "cleanup example_stale = Some 1 \<and>
   sim_nodes (sims example_stale 1) = [Caller 3, Caller 4] \<and>
   map (\<lambda>a. dev_id (dev (node_heap example_stale a))) [Caller 3, Caller 4] = [''a'', ''b''] \<and>
   map (\<lambda>a. n_x (node_heap example_stale a)) [Caller 3, Caller 4] = [Some (3 / 5), Some (503 / 5)] \<and>
   map line_datum (dom_lines example_stale) = [Caller 0] \<and>
   l_source (example_link_heap (Caller 0)) = Id ''a'' \<and>
   l_target (example_link_heap (Caller 0)) = Id ''b'' \<and>
   l_source (link_heap example_stale (Caller 0)) = NodeRef (Caller 0) \<and>
   l_target (link_heap example_stale (Caller 0)) = NodeRef (Caller 1) \<and>
   map line_x1 (dom_lines example_stale) = [Some 0] \<and>
   map line_x2 (dom_lines example_stale) = [Some 100] \<and>
   \<not> list_all (line_on_nodes example_stale [Caller 3, Caller 4]) (dom_lines example_stale)"
  by (simp add: example_stale_def example_rerender_def example_defs effect_defs tick_defs line_on_nodes_def)

section \<open>The zoom scale\<close>



















text \<open>Updates that keep the transforms.\<close>

lemma zoom_ok_anchors:
  assumes "zoom_ok z" "anchor_ok w" "anchor_ok m" "anchor_ok a0" "anchor_ok a1"
  shows "zoom_ok (z\<lparr> wheel_mouse := w, pan_mouse := m, touch0 := a0, touch1 := a1 \<rparr>)"
  using assms by (simp add: zoom_ok_def)










lemma zoom_prop_interrupt: "zoom_prop (zoom_interrupt z) = zoom_prop z"
  by (simp add: zoom_interrupt_def)
























end
